theory Spec2Isabelle
  imports Complex_Main "HOL-Library.Word" "HOL-Library.Sublist"
begin

unbundle bit_operations_syntax

section \<open>Bytes, integers and errors\<close>

text \<open>
  Python \<open>bytes\<close> are lists of 8-bit values; Python integers are unbounded and are
  modelled as \<open>int\<close>. Every exception the modelled code can raise is a value of
  \<open>py_error\<close>; \<open>SystemExit\<close> is kept apart from the others because
  \<open>except Exception\<close> does not catch it.
\<close>

type_synonym byte = "8 word"
type_synonym bytes = "byte list"

datatype py_error =
    ZeroDivisionError
  | StructError
  | OverflowError
  | ValueError
  | TypeError
  | KeyError
  | AttributeError
  | RuntimeError

text \<open>\<open>int.from_bytes(b)\<close>: the byte order defaults to big-endian.\<close>

definition int_from_bytes :: "bytes \<Rightarrow> int" where
  "int_from_bytes bs = foldl (\<lambda>acc b. acc * 256 + uint b) 0 bs"

text \<open>
  \<open>n.to_bytes(k, "little")\<close>: the \<open>k\<close> low-order bytes of \<open>n\<close>, least significant
  first; OverflowError when \<open>n\<close> is negative or does not fit.
\<close>

definition le_bytes :: "nat \<Rightarrow> int \<Rightarrow> bytes" where
  "le_bytes k n = map (\<lambda>i. word_of_int (n div 256 ^ i)) [0..<k]"

definition to_bytes_little :: "nat \<Rightarrow> int \<Rightarrow> py_error + bytes" where
  "to_bytes_little k n =
     (if 0 \<le> n \<and> n < 256 ^ k then Inr (le_bytes k n) else Inl OverflowError)"

text \<open>\<open>struct.pack("<Q", n)\<close>: eight bytes, little-endian; struct.error out of range.\<close>

definition pack_Q :: "int \<Rightarrow> py_error + bytes" where
  "pack_Q n = (if 0 \<le> n \<and> n < 2 ^ 64 then Inr (le_bytes 8 n) else Inl StructError)"

text \<open>
  The two readings of a byte string as a number that the specification names, written
  from its words: big-endian gives the first byte the highest weight, little-endian the
  lowest.
\<close>

definition be_value :: "bytes \<Rightarrow> int" where
  "be_value bs = (\<Sum>i<length bs. uint (bs ! i) * 256 ^ (length bs - 1 - i))"

definition le_value :: "bytes \<Rightarrow> int" where
  "le_value bs = (\<Sum>i<length bs. uint (bs ! i) * 256 ^ i)"

section \<open>Hash Engine\<close>

definition MAX_TARGET :: int where
  "MAX_TARGET = push_bit 256 1 - 1"

text \<open>\<open>sha3_256d\<close>: the hash function \<open>sha3\<close> (hashlib.sha3_256) applied twice.\<close>

definition sha3_256d :: "(bytes \<Rightarrow> bytes) \<Rightarrow> bytes \<Rightarrow> bytes" where
  "sha3_256d sha3 data = sha3 (sha3 data)"

text \<open>
  \<open>generate_header_hash\<close>: the header is built by appending five fields, then hashed
  with \<open>blake3\<close>. Each packing step can raise.
\<close>

definition generate_header_hash ::
  "(bytes \<Rightarrow> bytes) \<Rightarrow> int \<Rightarrow> bytes \<Rightarrow> int \<Rightarrow> bytes \<Rightarrow> int \<Rightarrow> py_error + bytes" where
  "generate_header_hash blake3 block_number miner difficulty prev_hash ts =
     (case pack_Q block_number of Inl e \<Rightarrow> Inl e | Inr h1 \<Rightarrow>
     (case to_bytes_little 32 difficulty of Inl e \<Rightarrow> Inl e | Inr h3 \<Rightarrow>
     (case pack_Q ts of Inl e \<Rightarrow> Inl e | Inr h5 \<Rightarrow>
        Inr (blake3 (h1 @ miner @ h3 @ prev_hash @ h5)))))"

text \<open>
  \<open>meets_difficulty\<close>: \<open>//\<close> is floor division, as \<open>div\<close> on \<open>int\<close> is; dividing by
  zero raises.
\<close>

definition meets_difficulty :: "bytes \<Rightarrow> int \<Rightarrow> py_error + bool" where
  "meets_difficulty final_hash difficulty =
     (let hv = int_from_bytes final_hash in
      if difficulty = 0 then Inl ZeroDivisionError
      else let target = MAX_TARGET div difficulty in Inr (hv \<le> target))"

text \<open>
  The hash attempt of the hot loop (\<open>data = header_hash + struct.pack("<Q", nonce)\<close>,
  \<open>final_hash = sha3_256d(data)\<close>).
\<close>

definition hash_attempt :: "(bytes \<Rightarrow> bytes) \<Rightarrow> bytes \<Rightarrow> int \<Rightarrow> py_error + bytes" where
  "hash_attempt sha3 header_hash nonce =
     (case pack_Q nonce of Inl e \<Rightarrow> Inl e
      | Inr p \<Rightarrow> Inr (sha3_256d sha3 (header_hash @ p)))"


section \<open>Address decoding\<close>

text \<open>
  \<open>decode_xet_address\<close>: the part of the address after the colon is read as
  5-bit values through the Bech32 character set and regrouped into 8-bit values;
  the result is a zero followed by the first 33 of them. \<open>str_split\<close> is
  \<open>str.split\<close> on one separator character, \<open>str_index\<close> is \<open>str.index\<close> (None
  where Python raises ValueError), \<open>drain\<close> is the inner \<open>while bits >= 8\<close> loop
  and \<open>decode_step\<close> one pass of the \<open>for\<close> loop.
\<close>

definition charset :: string where
  "charset = ''qpzry9x8gf2tvdw0s3jn54khce6mua7l''"

fun str_split :: "char \<Rightarrow> string \<Rightarrow> string \<Rightarrow> string list" where
  "str_split sep cur [] = [cur]"
| "str_split sep cur (c # cs) =
     (if c = sep then cur # str_split sep [] cs else str_split sep (cur @ [c]) cs)"

fun str_index :: "string \<Rightarrow> char \<Rightarrow> nat option" where
  "str_index [] c = None"
| "str_index (x # xs) c = (if x = c then Some 0 else map_option Suc (str_index xs c))"

function drain :: "int \<Rightarrow> nat \<Rightarrow> int list \<Rightarrow> nat \<times> int list" where
  "drain acc bits result =
     (if bits \<ge> 8 then drain acc (bits - 8) (result @ [drop_bit (bits - 8) acc AND 0xFF])
      else (bits, result))"
  by pat_completeness auto
termination
  by (relation "measure (\<lambda>(acc, bits, result). bits)") auto

declare drain.simps [simp del]

definition decode_step :: "int \<times> nat \<times> int list \<Rightarrow> nat \<Rightarrow> int \<times> nat \<times> int list" where
  "decode_step st v =
     (case st of (acc, bits, result) \<Rightarrow>
        let acc' = push_bit 5 acc OR int v;
            (bits', result') = drain acc' (bits + 5) result
        in (acc', bits', result'))"

definition decode_xet_address :: "string \<Rightarrow> py_error + int list" where
  "decode_xet_address address =
     (case str_split CHR '':'' [] address of
        [_, data_part] \<Rightarrow>
          (case those (map (str_index charset) data_part) of
             None \<Rightarrow> Inl ValueError
           | Some data_5bit \<Rightarrow>
               (case foldl decode_step (0, 0, []) data_5bit of
                  (acc, bits, result) \<Rightarrow> Inr (0 # take 33 result)))
      | _ \<Rightarrow> Inl ValueError)"

text \<open>
  \<open>bytes(...)\<close> of a list of integers, as the main block applies it to the decoded
  address: ValueError unless every element is in \<open>range(256)\<close>.
\<close>

definition bytes_of_ints :: "int list \<Rightarrow> py_error + bytes" where
  "bytes_of_ints xs =
     (if \<forall>x \<in> set xs. 0 \<le> x \<and> x < 256 then Inr (map word_of_int xs) else Inl ValueError)"

definition decode_address_bytes :: "string \<Rightarrow> py_error + bytes" where
  "decode_address_bytes address =
     (case decode_xet_address address of Inl e \<Rightarrow> Inl e | Inr xs \<Rightarrow> bytes_of_ints xs)"


text \<open>
  The number that a list of 5-bit values denotes when the first value has the highest
  weight: the data part of an address read as one base-32 numeral.
\<close>

definition base32_value :: "nat list \<Rightarrow> int" where
  "base32_value vs = (\<Sum>i<length vs. int (vs ! i) * 32 ^ (length vs - 1 - i))"

text \<open>
  The address of the usage example in the program's help text, and the bytes the
  program decodes it to.
\<close>

definition usage_address :: string where
  "usage_address = ''xet:4cka26kpvq6nj93lguycywn8flccvrf537dzqa0x0jyhawddepfsqtka05w''"

definition usage_address_bytes :: bytes where
  "usage_address_bytes =
     [0, 174, 45, 213, 106, 193, 96, 53, 57, 22, 63, 71, 9, 130, 58, 103, 79, 241, 134, 13,
      52, 143, 154, 32, 117, 230, 124, 137, 126, 185, 173, 200, 83, 0]"

section \<open>JSON values and the Python operations on them\<close>

text \<open>
  The values \<open>json.loads\<close> and \<open>r.json()\<close> produce. A dict is an association list
  read by \<open>map_of\<close>; a float carries the number it denotes (a float that is not finite
  behaves, in every operation used here, as a finite one that is no integer). Strings
  are UTF-8 byte sequences.
\<close>

datatype json =
    JNull
  | JBool bool
  | JInt int
  | JFloat rat
  | JStr string
  | JList "json list"
  | JObj "(string \<times> json) list"

text \<open>
  \<open>key in x\<close> for a string key: key membership in a dict, substring test in a string,
  element test in a list, TypeError for the values that are not containers.
\<close>

definition py_contains :: "json \<Rightarrow> string \<Rightarrow> py_error + bool" where
  "py_contains x key =
     (case x of
        JObj d \<Rightarrow> Inr (map_of d key \<noteq> None)
      | JStr s \<Rightarrow> Inr (sublist key s)
      | JList xs \<Rightarrow> Inr (JStr key \<in> set xs)
      | _ \<Rightarrow> Inl TypeError)"

text \<open>\<open>x[key]\<close> for a string key: only a dict can be indexed by a string.\<close>

definition py_getitem :: "json \<Rightarrow> string \<Rightarrow> py_error + json" where
  "py_getitem x key =
     (case x of
        JObj d \<Rightarrow> (case map_of d key of None \<Rightarrow> Inl KeyError | Some v \<Rightarrow> Inr v)
      | _ \<Rightarrow> Inl TypeError)"

text \<open>\<open>d.get(key)\<close> on a dict: \<open>None\<close> for a missing key.\<close>

definition dict_get :: "(string \<times> json) list \<Rightarrow> string \<Rightarrow> json" where
  "dict_get d key = (case map_of d key of None \<Rightarrow> JNull | Some v \<Rightarrow> v)"

text \<open>
  \<open>isinstance(x, int)\<close> with the integer \<open>x\<close> is: \<open>bool\<close> is a subclass of \<open>int\<close>,
  with \<open>True == 1\<close> and \<open>False == 0\<close>.
\<close>

definition py_int_value :: "json \<Rightarrow> int option" where
  "py_int_value x =
     (case x of JInt n \<Rightarrow> Some n | JBool b \<Rightarrow> Some (if b then 1 else 0) | _ \<Rightarrow> None)"

text \<open>\<open>x == s\<close> for a string \<open>s\<close> and \<open>x == k\<close> for an integer \<open>k\<close>.\<close>

definition py_eq_str :: "json \<Rightarrow> string \<Rightarrow> bool" where
  "py_eq_str x s = (case x of JStr t \<Rightarrow> t = s | _ \<Rightarrow> False)"

definition py_eq_int :: "json \<Rightarrow> int \<Rightarrow> bool" where
  "py_eq_int x k =
     (case x of
        JInt n \<Rightarrow> n = k
      | JBool b \<Rightarrow> (if b then 1 else 0) = k
      | JFloat q \<Rightarrow> q = of_int k
      | _ \<Rightarrow> False)"

text \<open>\<open>str(n)\<close> of an integer: decimal digits, with a minus sign when negative.\<close>

definition digit_char :: "nat \<Rightarrow> char" where
  "digit_char d = ''0123456789'' ! d"

function str_nat :: "nat \<Rightarrow> string" where
  "str_nat n = (if n < 10 then [digit_char n] else str_nat (n div 10) @ [digit_char (n mod 10)])"
  by pat_completeness auto
termination
  by (relation "measure (\<lambda>n. n)") auto

declare str_nat.simps [simp del]

definition str_int :: "int \<Rightarrow> string" where
  "str_int n = (if n < 0 then CHR ''-'' # str_nat (nat (- n)) else str_nat (nat n))"

section \<open>Submission results\<close>

text \<open>
  The messages of \<open>error_codes\<close>. Each starts with a symbol outside ASCII, given by its
  UTF-8 bytes.
\<close>

definition error_codes :: "(int \<times> string) list" where
  "error_codes =
     [(0, [CHR 0xE2, CHR 0x9C, CHR 0x85] @ '' Success - Block mined!''),
      (1, [CHR 0xE2, CHR 0x9A, CHR 0xA0, CHR 0xEF, CHR 0xB8, CHR 0x8F]
            @ '' Max supply reached - Mining complete''),
      (2, [CHR 0xE2, CHR 0x9D, CHR 0x8C]
            @ '' Timestamp out of bounds (must be: now-30 <= ts <= now+5)''),
      (3, [CHR 0xE2, CHR 0x9D, CHR 0x8C] @ '' Timestamp is stale (ts <= last_time)''),
      (4, [CHR 0xE2, CHR 0x9D, CHR 0x8C]
            @ '' PoW verification failed (hash doesn'' @ [CHR 0x27] @ ''t meet difficulty)'')]"

definition unknown_code_prefix :: string where
  "unknown_code_prefix = [CHR 0xE2, CHR 0x9D, CHR 0x93] @ '' Unknown return code: ''"

text \<open>
  The first half of \<open>parse_contract_error\<close>: where the return code is looked for in a
  dict. \<open>Inr None\<close> is the \<open>return None\<close> of the last \<open>else\<close>; an error is an
  exception raised inside the \<open>try\<close>.
\<close>

definition find_return_code :: "(string \<times> json) list \<Rightarrow> py_error + json option" where
  "find_return_code result =
     (let other =
            (case map_of result ''result'' of
               Some v \<Rightarrow> Inr (Some v)
             | None \<Rightarrow>
                 (case map_of result ''return_value'' of
                    Some v \<Rightarrow> Inr (Some v)
                  | None \<Rightarrow> Inr None))
      in case map_of result ''tx'' of
           None \<Rightarrow> other
         | Some tx \<Rightarrow>
             (case py_contains tx ''result'' of
                Inl e \<Rightarrow> Inl e
              | Inr True \<Rightarrow>
                  (case py_getitem tx ''result'' of Inl e \<Rightarrow> Inl e | Inr v \<Rightarrow> Inr (Some v))
              | Inr False \<Rightarrow> other))"

text \<open>
  The integer return code that \<open>parse_contract_error\<close> goes on with: none when the
  result is no dict, when the lookup raised (the bare \<open>except\<close> swallows it), when no
  key was found, or when the value found is no \<open>int\<close>.
\<close>

definition return_code_of :: "json \<Rightarrow> int option" where
  "return_code_of result =
     (case result of
        JObj d \<Rightarrow>
          (case find_return_code d of
             Inr (Some return_code) \<Rightarrow> py_int_value return_code
           | _ \<Rightarrow> None)
      | _ \<Rightarrow> None)"

text \<open>
  \<open>parse_contract_error\<close>: \<open>error_codes.get(return_code, default)\<close>. A \<open>bool\<close> return
  code is always found under the key 0 or 1, so the default is only ever formatted
  from an integer.
\<close>

definition parse_contract_error :: "json \<Rightarrow> string option" where
  "parse_contract_error result =
     (case return_code_of result of
        None \<Rightarrow> None
      | Some return_code \<Rightarrow>
          (case map_of error_codes return_code of
             Some msg \<Rightarrow> Some msg
           | None \<Rightarrow> Some (unknown_code_prefix @ str_int return_code)))"

text \<open>
  What the mining loop does with the outcome of \<open>submit_solution\<close> (the \<open>try\<close> block
  after a solution is found): an exception of \<open>rpc_call\<close> is caught and printed;
  \<open>sys.exit(0)\<close> raises SystemExit, which \<open>except Exception\<close> does not catch.
\<close>

datatype submit_outcome = SysExit int | Continue

text \<open>The test \<open>error_msg and "Max supply reached" in error_msg\<close>.\<close>

definition exit_message :: "string \<Rightarrow> bool" where
  "exit_message msg \<longleftrightarrow> msg \<noteq> [] \<and> sublist ''Max supply reached'' msg"

definition handle_submission :: "py_error + json \<Rightarrow> submit_outcome" where
  "handle_submission r =
     (case r of
        Inl e \<Rightarrow> Continue
      | Inr res \<Rightarrow>
          (case parse_contract_error res of
             None \<Rightarrow> Continue
           | Some error_msg \<Rightarrow>
               if exit_message error_msg then SysExit 0 else Continue))"


section \<open>The shared mining state\<close>

text \<open>
  \<open>class MiningState\<close>. The lock is a flag: in this program only the mining loop
  holds it across more than one statement (from the check of
  \<open>awaiting_confirmation\<close> to the copy of the parameters), so \<open>lock_held\<close> says that
  the mining loop is inside that block. The Event is its flag.
\<close>

record mining_state =
  lock_held :: bool
  restart_event :: bool
  awaiting_confirmation :: bool
  block_number :: int
  difficulty :: int
  prev_hash :: bytes
  ts :: int

definition MiningState_init :: "int \<Rightarrow> mining_state" where
  "MiningState_init t0 =
     \<lparr>lock_held = False, restart_event = True, awaiting_confirmation = False,
      block_number = 0, difficulty = 1, prev_hash = replicate 32 0, ts = t0\<rparr>"

section \<open>The mining loop\<close>

text \<open>
  The places of \<open>mine_loop\<close> between which the other thread can run:
  \<^item> \<open>WaitRestart\<close>: \<open>state.restart_event.wait()\<close> at the top of the outer loop;
  \<^item> \<open>AcquireLock\<close>: \<open>with state.lock\<close> and the test of \<open>awaiting_confirmation\<close>;
  \<^item> \<open>Syncing\<close>: \<open>sync_chain_state\<close> and the timestamp, inside the lock;
  \<^item> \<open>ClearRestart\<close>: \<open>restart_event.clear()\<close>, the copies into locals, the release;
  \<^item> \<open>BuildHeader\<close>: \<open>generate_header_hash\<close> and the random initial nonce;
  \<^item> \<open>LoopTest\<close>: the test of \<open>while not state.restart_event.is_set()\<close>;
  \<^item> \<open>Hashing\<close>: one pass of the body of the hot loop;
  \<^item> \<open>Submitting\<close>: the \<open>try\<close> block around \<open>submit_solution\<close>;
  \<^item> \<open>SetAwaiting\<close>: \<open>state.awaiting_confirmation = True\<close> under the lock;
  \<^item> \<open>ClearAfterSubmit\<close>: \<open>restart_event.clear()\<close> after a submission;
  \<^item> \<open>WaitAfterSubmit\<close>: \<open>restart_event.wait()\<close> and the \<open>break\<close>;
  \<^item> \<open>Exited\<close>: \<open>sys.exit(0)\<close> was called;
  \<^item> \<open>Crashed\<close>: an exception left the function.
\<close>

datatype miner_pc =
    WaitRestart
  | AcquireLock
  | Syncing
  | ClearRestart
  | BuildHeader
  | LoopTest
  | Hashing
  | Submitting
  | SetAwaiting
  | ClearAfterSubmit
  | WaitAfterSubmit
  | Exited
  | Crashed py_error

text \<open>
  The local variables of \<open>mine_loop\<close>. \<open>submitted\<close> is not a variable of the program:
  it records the arguments of every call of \<open>submit_solution\<close>, in order.
\<close>

record miner_locals =
  pc :: miner_pc
  l_block_number :: int
  l_difficulty :: int
  l_prev_hash :: bytes
  current_ts :: int
  header_hash :: bytes
  nonce :: int
  local_hashes :: int
  submitted :: "(int \<times> int) list"

text \<open>
  What the surroundings give to one step of the mining loop: the outcome of
  \<open>sync_chain_state\<close>, the clock in milliseconds, the draw of the random generator,
  whether more than \<open>HASHRATE_REPORT_INTERVAL\<close> seconds have passed since the last
  report, and the outcome of \<open>submit_solution\<close>.
\<close>

record env =
  sync_result :: "py_error + int \<times> int \<times> bytes"
  now_ms :: int
  entropy :: int
  report_due :: bool
  submit_result :: "py_error + json"

text \<open>
  What stays fixed during a run: the two hash functions, the argument of \<open>mine_loop\<close>
  and the configured contract.
\<close>

record world =
  blake3 :: "bytes \<Rightarrow> bytes"
  sha3_256 :: "bytes \<Rightarrow> bytes"
  address_bytes :: bytes
  CONTRACT_HASH :: string

definition CONTRACT_EVENT_ID :: int where
  "CONTRACT_EVENT_ID = 1"

text \<open>
  \<open>random.randint(a, b)\<close> returns some \<open>N\<close> with \<open>a <= N <= b\<close>; which one is decided by
  the draw.
\<close>

definition randint :: "int \<Rightarrow> int \<Rightarrow> int \<Rightarrow> int" where
  "randint a b draw = a + draw mod (b - a + 1)"

section \<open>The event listener\<close>

text \<open>
  What \<open>listen_contract_events\<close> does with one decoded message: \<open>Matched\<close> when it
  reaches the block that restarts mining, \<open>Raised\<close> when an exception sends it to
  the reconnection, \<open>Ignored\<close> otherwise.
\<close>

datatype handled = Matched | Ignored | Raised py_error

definition handle_message :: "string \<Rightarrow> json \<Rightarrow> handled" where
  "handle_message contract data =
     (case py_contains data ''result'' of
        Inl e \<Rightarrow> Raised e
      | Inr False \<Rightarrow> Ignored
      | Inr True \<Rightarrow>
          (case py_getitem data ''result'' of
             Inl e \<Rightarrow> Raised e
           | Inr (JBool b) \<Rightarrow> Ignored
           | Inr (JObj result) \<Rightarrow>
               (case map_of result ''event'' of
                  Some (JObj event) \<Rightarrow>
                    (case map_of event ''contract_event'' of
                       None \<Rightarrow> Ignored
                     | Some (JObj event_info) \<Rightarrow>
                         if py_eq_str (dict_get event_info ''contract'') contract
                            \<and> py_eq_int (dict_get event_info ''id'') CONTRACT_EVENT_ID
                         then Matched else Ignored
                     | Some _ \<Rightarrow> Raised AttributeError)
                | _ \<Rightarrow> Ignored)
           | Inr _ \<Rightarrow> Ignored))"

text \<open>
  The places of the listener: receiving messages, about to clear
  \<open>awaiting_confirmation\<close> under the lock, about to set the restart event.
\<close>

datatype listener_pc = Receiving | ClearAwaiting | SetRestart

section \<open>The two threads together\<close>

text \<open>\<open>last_message\<close> is not a variable of the program: the last message received.\<close>

record system =
  state :: mining_state
  miner :: miner_locals
  listener :: listener_pc
  last_message :: "json option"

definition initial :: "int \<Rightarrow> system" where
  "initial t0 =
     \<lparr>state = MiningState_init t0,
      miner = \<lparr>pc = WaitRestart, l_block_number = 0, l_difficulty = 0, l_prev_hash = [],
               current_ts = 0, header_hash = [], nonce = 0, local_hashes = 0,
               submitted = []\<rparr>,
      listener = Receiving,
      last_message = None\<rparr>"

definition goto :: "miner_pc \<Rightarrow> system \<Rightarrow> system" where
  "goto p s = s\<lparr>miner := (miner s)\<lparr>pc := p\<rparr>\<rparr>"

text \<open>
  One step of the mining loop. A step that cannot be taken (a wait on an event that
  is not set, a thread that has ended) leaves the system as it is. The main block
  starts \<open>mine_loop\<close> in a thread of its own and runs the listener in the main
  thread: SystemExit or an exception that leaves \<open>mine_loop\<close> ends the mining thread,
  and the listener still takes its steps.
\<close>

definition miner_step :: "world \<Rightarrow> env \<Rightarrow> system \<Rightarrow> system" where
  "miner_step w e s =
     (let g = state s; m = miner s in
      case pc m of
        WaitRestart \<Rightarrow> if restart_event g then goto AcquireLock s else s
      | AcquireLock \<Rightarrow>
          if awaiting_confirmation g then goto WaitRestart s
          else goto Syncing (s\<lparr>state := g\<lparr>lock_held := True\<rparr>\<rparr>)
      | Syncing \<Rightarrow>
          (case sync_result e of
             Inl err \<Rightarrow> goto WaitRestart (s\<lparr>state := g\<lparr>lock_held := False\<rparr>\<rparr>)
           | Inr (b, d, p) \<Rightarrow>
               goto ClearRestart
                 (s\<lparr>state := g\<lparr>block_number := b, difficulty := d, prev_hash := p,
                               ts := now_ms e\<rparr>\<rparr>))
      | ClearRestart \<Rightarrow>
          s\<lparr>state := g\<lparr>restart_event := False, lock_held := False\<rparr>,
            miner := m\<lparr>pc := BuildHeader, l_block_number := block_number g,
                        l_difficulty := difficulty g, l_prev_hash := prev_hash g,
                        current_ts := ts g\<rparr>\<rparr>
      | BuildHeader \<Rightarrow>
          (case generate_header_hash (blake3 w) (l_block_number m) (address_bytes w)
                  (l_difficulty m) (l_prev_hash m) (current_ts m) of
             Inl err \<Rightarrow> goto WaitRestart s
           | Inr h \<Rightarrow>
               s\<lparr>miner := m\<lparr>pc := LoopTest, header_hash := h,
                             nonce := randint 0 (2 ^ 32) (entropy e), local_hashes := 0\<rparr>\<rparr>)
      | LoopTest \<Rightarrow> if restart_event g then goto WaitRestart s else goto Hashing s
      | Hashing \<Rightarrow>
          (case hash_attempt (sha3_256 w) (header_hash m) (nonce m) of
             Inl err \<Rightarrow> goto (Crashed err) s
           | Inr final_hash \<Rightarrow>
               (case meets_difficulty final_hash (l_difficulty m) of
                  Inl err \<Rightarrow>
                    s\<lparr>miner := m\<lparr>pc := Crashed err, local_hashes := local_hashes m + 1\<rparr>\<rparr>
                | Inr True \<Rightarrow>
                    s\<lparr>miner := m\<lparr>pc := Submitting, local_hashes := local_hashes m + 1\<rparr>\<rparr>
                | Inr False \<Rightarrow>
                    s\<lparr>state := (if (local_hashes m + 1) mod 100000 = 0 \<and> report_due e
                                 then g\<lparr>restart_event := True\<rparr> else g),
                      miner := m\<lparr>pc := LoopTest, nonce := nonce m + 1,
                                  local_hashes := local_hashes m + 1\<rparr>\<rparr>))
      | Submitting \<Rightarrow>
          s\<lparr>miner := m\<lparr>pc := (case handle_submission (submit_result e) of
                                   SysExit c \<Rightarrow> Exited
                                 | Continue \<Rightarrow> SetAwaiting),
                        submitted := submitted m @ [(nonce m, current_ts m)]\<rparr>\<rparr>
      | SetAwaiting \<Rightarrow> goto ClearAfterSubmit (s\<lparr>state := g\<lparr>awaiting_confirmation := True\<rparr>\<rparr>)
      | ClearAfterSubmit \<Rightarrow> goto WaitAfterSubmit (s\<lparr>state := g\<lparr>restart_event := False\<rparr>\<rparr>)
      | WaitAfterSubmit \<Rightarrow> if restart_event g then goto WaitRestart s else s
      | Exited \<Rightarrow> s
      | Crashed err \<Rightarrow> s)"

text \<open>
  One step of the listener, given the next message (or the exception that receiving
  or decoding it raised). An exception leads to the reconnection, which touches
  nothing of the shared state.
\<close>

definition listener_step :: "world \<Rightarrow> py_error + json \<Rightarrow> system \<Rightarrow> system" where
  "listener_step w msg s =
     (case listener s of
        Receiving \<Rightarrow>
          (case msg of
             Inl err \<Rightarrow> s
           | Inr data \<Rightarrow>
               (case handle_message (CONTRACT_HASH w) data of
                  Matched \<Rightarrow> s\<lparr>listener := ClearAwaiting, last_message := Some data\<rparr>
                | _ \<Rightarrow> s\<lparr>last_message := Some data\<rparr>))
      | ClearAwaiting \<Rightarrow>
          if lock_held (state s) then s
          else s\<lparr>state := (state s)\<lparr>awaiting_confirmation := False\<rparr>, listener := SetRestart\<rparr>
      | SetRestart \<Rightarrow>
          s\<lparr>state := (state s)\<lparr>restart_event := True\<rparr>, listener := Receiving\<rparr>)"

datatype event = MinerStep env | ListenerStep "py_error + json"

definition step :: "world \<Rightarrow> event \<Rightarrow> system \<Rightarrow> system" where
  "step w ev s =
     (case ev of MinerStep e \<Rightarrow> miner_step w e s | ListenerStep msg \<Rightarrow> listener_step w msg s)"

definition run :: "world \<Rightarrow> event list \<Rightarrow> system \<Rightarrow> system" where
  "run w evs s = foldl (\<lambda>s ev. step w ev s) s evs"

inductive reachable :: "world \<Rightarrow> system \<Rightarrow> bool" for w :: world where
  reachable_initial: "reachable w (initial t0)"
| reachable_step: "reachable w s \<Longrightarrow> reachable w (step w ev s)"

text \<open>
  The places of a search cycle: from the refresh of the parameters to the hashing.
\<close>

definition in_search_cycle :: "miner_pc \<Rightarrow> bool" where
  "in_search_cycle p \<longleftrightarrow> p \<in> {Syncing, ClearRestart, BuildHeader, LoopTest, Hashing}"


section \<open>A concrete scenario\<close>

text \<open>
  A world in which every hash attempt yields the all-zero hash (so the first nonce
  tried is a solution), surroundings in which the chain reports block 100 and
  difficulty 1000 and \<open>submit_solution\<close> ends as given, and a message that is a
  contract event of the configured contract.
\<close>

definition example_world :: world where
  "example_world =
     \<lparr>blake3 = (\<lambda>x. replicate 32 7), sha3_256 = (\<lambda>x. replicate 32 0),
      address_bytes = [0, 1],
      CONTRACT_HASH = ''a5f71cfb9897384da12b69c6abd4a90a3233f6512221028fd60e3e66fb6ae982''\<rparr>"

definition example_env :: "py_error + json \<Rightarrow> env" where
  "example_env r =
     \<lparr>sync_result = Inr (100, 1000, replicate 32 0), now_ms = 5, entropy = 2 ^ 32 + 3,
      report_due = False, submit_result = r\<rparr>"

definition example_event :: json where
  "example_event =
     JObj [(''result'',
       JObj [(''event'',
         JObj [(''contract_event'',
           JObj [(''contract'',
                  JStr ''a5f71cfb9897384da12b69c6abd4a90a3233f6512221028fd60e3e66fb6ae982''),
                 (''id'', JInt 1)])])])]"

text \<open>
  A solution is found and its submission fails; the event arrives while the mining
  loop is between the submission and its wait.
\<close>

definition race_trace :: "event list" where
  "race_trace =
     replicate 8 (MinerStep (example_env (Inl RuntimeError)))
     @ [ListenerStep (Inr example_event), ListenerStep (Inr example_event)]
     @ replicate 2 (MinerStep (example_env (Inl RuntimeError)))
     @ [ListenerStep (Inr example_event)]
     @ replicate 2 (MinerStep (example_env (Inl RuntimeError)))"


text \<open>
  The same scenario up to the submission (the mining loop is about to call
  \<open>submit_solution\<close>), up to the write of \<open>awaiting_confirmation\<close> after a failed
  submission, and up to the receipt of the event after that write.
\<close>

definition found_trace :: "event list" where
  "found_trace = replicate 7 (MinerStep (example_env (Inl RuntimeError)))"

definition submit_trace :: "event list" where
  "submit_trace = replicate 8 (MinerStep (example_env (Inl RuntimeError)))"

definition confirm_trace :: "event list" where
  "confirm_trace =
     replicate 9 (MinerStep (example_env (Inl RuntimeError)))
     @ [ListenerStep (Inr example_event)]"



text \<open>Results of \<open>submit_solution\<close> that carry the return codes 1 and 4.\<close>

definition supply_exhausted :: json where
  "supply_exhausted = JObj [(''result'', JInt 1)]"

definition pow_rejected :: json where
  "pow_rejected = JObj [(''tx'', JObj [(''result'', JInt 4)])]"


text \<open>The scenario up to the step that builds the header and draws the nonce.\<close>

definition synced_trace :: "event list" where
  "synced_trace = replicate 4 (MinerStep (example_env (Inl RuntimeError)))"


text \<open>
  The scenario in which the submission returns the return code 1, and its
  continuation in which an event arrives afterwards.
\<close>

definition exhausted_trace :: "event list" where
  "exhausted_trace = found_trace @ [MinerStep (example_env (Inr supply_exhausted))]"

definition after_exit_trace :: "event list" where
  "after_exit_trace =
     exhausted_trace
     @ replicate 3 (ListenerStep (Inr example_event))
     @ replicate 2 (MinerStep (example_env (Inr supply_exhausted)))"




section \<open>Properties of the byte encodings\<close>

lemma be_value_Cons: "be_value (b # bs) = uint b * 256 ^ length bs + be_value bs"
  by (simp add: be_value_def sum.lessThan_Suc_shift del: sum.lessThan_Suc)

lemma foldl_be: "foldl (\<lambda>acc b. acc * 256 + uint b) a bs = a * 256 ^ length bs + be_value bs"
proof (induction bs arbitrary: a)
  case Nil
  show ?case by (simp add: be_value_def)
next
  case (Cons b bs)
  have "foldl (\<lambda>acc b. acc * 256 + uint b) a (b # bs)
        = (a * 256 + uint b) * 256 ^ length bs + be_value bs"
    by (simp add: Cons.IH)
  also have "\<dots> = a * 256 ^ length (b # bs) + be_value (b # bs)"
    by (simp add: be_value_Cons algebra_simps)
  finally show ?case .
qed

lemma int_from_bytes_be: "int_from_bytes bs = be_value bs"
  by (simp add: int_from_bytes_def foldl_be)

lemma be_value_bounds: "0 \<le> be_value bs \<and> be_value bs < 256 ^ length bs"
proof (induction bs)
  case Nil
  show ?case by (simp add: be_value_def)
next
  case (Cons b bs)
  have "uint b \<le> 255" using uint_lt2p [of b] by simp
  then have m: "uint b * 256 ^ length bs \<le> 255 * 256 ^ length bs"
    by (simp add: mult_right_mono)
  have p: "0 \<le> uint b * 256 ^ length bs" by simp
  have "uint b * 256 ^ length bs + be_value bs < 256 * 256 ^ length bs"
    using m Cons.IH by linarith
  moreover have "0 \<le> uint b * 256 ^ length bs + be_value bs"
    using p Cons.IH by linarith
  ultimately show ?case by (simp add: be_value_Cons)
qed

lemma MAX_TARGET_eq: "MAX_TARGET = 2 ^ 256 - 1"
  by (simp add: MAX_TARGET_def push_bit_eq_mult)

lemma le_value_snoc: "le_value (bs @ [b]) = le_value bs + uint b * 256 ^ length bs"
  by (simp add: le_value_def nth_append)

lemma le_value_le_bytes: "0 \<le> n \<Longrightarrow> le_value (le_bytes k n) = n mod 256 ^ k"
proof (induction k)
  case 0
  show ?case by (simp add: le_value_def le_bytes_def)
next
  case (Suc k)
  have *: "le_bytes (Suc k) n = le_bytes k n @ [word_of_int (n div 256 ^ k)]"
    by (simp add: le_bytes_def)
  have u: "uint (word_of_int (n div 256 ^ k) :: byte) = (n div 256 ^ k) mod 256"
    by (simp add: uint_word_of_int)
  have l: "length (le_bytes k n) = k" by (simp add: le_bytes_def)
  have "n mod 256 ^ Suc k = n mod 256 ^ k + (n div 256 ^ k) mod 256 * 256 ^ k"
    using zmod_zmult2_eq [of 256 n "256 ^ k"] by (simp add: mult.commute)
  then show ?case using Suc by (simp add: * le_value_snoc u l)
qed

lemma length_le_bytes: "length (le_bytes k n) = k"
  by (simp add: le_bytes_def)

lemma le_value_le_bytes_id: "0 \<le> n \<Longrightarrow> n < 256 ^ k \<Longrightarrow> le_value (le_bytes k n) = n"
  by (simp add: le_value_le_bytes)

lemma pack_Q_ok: "0 \<le> n \<Longrightarrow> n < 2 ^ 64 \<Longrightarrow> pack_Q n = Inr (le_bytes 8 n)"
  by (simp add: pack_Q_def)

section \<open>Properties of the Hash Engine\<close>

text \<open>
  Claim C1, as stated, asks \<open>meets_difficulty\<close> to fail for every difficulty below 1.
  At difficulty \<open>-1\<close> the floor division gives a negative target and the function
  returns \<open>False\<close> without raising.
\<close>

theorem meets_difficulty_negative_counterexample:
  "length (replicate 32 (0::byte)) = 32 \<and> (- 1 :: int) < 1 \<and>
   meets_difficulty (replicate 32 0) (- 1) = Inr False"
  by code_simp

text \<open>
  Claim C1, amended: for a 32-byte hash, \<open>meets_difficulty\<close> reads the hash as a
  big-endian unsigned integer below \<open>2 ^ 256\<close>; for a difficulty of at least 1 it
  returns whether that value is at most \<open>(2 ^ 256 - 1) div difficulty\<close>, so difficulty
  1 accepts every hash; difficulty 0 raises ZeroDivisionError; a negative difficulty
  raises nothing and rejects every hash.
\<close>

theorem meets_difficulty_behaviour:
  assumes "length final_hash = 32"
  shows "int_from_bytes final_hash = be_value final_hash
       \<and> 0 \<le> be_value final_hash \<and> be_value final_hash < 2 ^ 256
       \<and> (1 \<le> d \<longrightarrow>
            meets_difficulty final_hash d = Inr (be_value final_hash \<le> (2 ^ 256 - 1) div d))
       \<and> meets_difficulty final_hash 1 = Inr True
       \<and> meets_difficulty final_hash 0 = Inl ZeroDivisionError
       \<and> (d < 0 \<longrightarrow> meets_difficulty final_hash d = Inr False)"
proof -
  have b: "0 \<le> be_value final_hash \<and> be_value final_hash < 256 ^ 32"
    using be_value_bounds [of final_hash] assms by simp
  have p: "(256::int) ^ 32 = 2 ^ 256" by simp
  have pos: "1 \<le> d \<Longrightarrow>
      meets_difficulty final_hash d = Inr (be_value final_hash \<le> (2 ^ 256 - 1) div d)"
    by (simp add: meets_difficulty_def int_from_bytes_be MAX_TARGET_eq)
  have one: "meets_difficulty final_hash 1 = Inr True"
    using b p by (simp add: meets_difficulty_def int_from_bytes_be MAX_TARGET_eq)
  have zero: "meets_difficulty final_hash 0 = Inl ZeroDivisionError"
    by (simp add: meets_difficulty_def)
  have neg: "meets_difficulty final_hash d = Inr False" if "d < 0"
  proof -
    have "MAX_TARGET div d < 0"
      using that by (simp add: neg_imp_zdiv_neg_iff MAX_TARGET_eq)
    with b show ?thesis
      using that by (simp add: meets_difficulty_def int_from_bytes_be)
  qed
  show ?thesis
    using b p pos one zero neg by (simp add: int_from_bytes_be)
qed

theorem meets_difficulty_behaviour_witness:
  "length (replicate 32 (255::byte)) = 32
   \<and> meets_difficulty (replicate 32 255) 2 = Inr False
   \<and> meets_difficulty (replicate 32 255) 1 = Inr True
   \<and> meets_difficulty (replicate 32 255) 0 = Inl ZeroDivisionError
   \<and> be_value (replicate 32 255) = 2 ^ 256 - 1"
proof -
  have l: "length (replicate 32 (255::byte)) = 32" by simp
  have v: "int_from_bytes (replicate 32 (255::byte)) = 2 ^ 256 - 1" by code_simp
  show ?thesis
    using meets_difficulty_behaviour [OF l, of 2] v l by simp
qed

text \<open>
  Claim C6: for a block height and a timestamp that fit 8 bytes and a difficulty that
  fits 32 bytes, \<open>generate_header_hash\<close> applies the one hash function once, to the
  concatenation, in this order, of the 8-byte little-endian height, the miner address
  bytes, the 32-byte little-endian difficulty, the previous hash and the 8-byte
  little-endian timestamp; the digest has 32 bytes when the hash function's output has.
\<close>

theorem generate_header_hash_concat:
  assumes "0 \<le> bn" "bn < 2 ^ 64"
      and "0 \<le> diff" "diff < 2 ^ 256"
      and "0 \<le> t" "t < 2 ^ 64"
  shows "generate_header_hash H bn addr diff ph t
           = Inr (H (le_bytes 8 bn @ addr @ le_bytes 32 diff
                            @ ph @ le_bytes 8 t))
       \<and> length (le_bytes 8 bn) = 8 \<and> le_value (le_bytes 8 bn) = bn
       \<and> length (le_bytes 32 diff) = 32 \<and> le_value (le_bytes 32 diff) = diff
       \<and> length (le_bytes 8 t) = 8 \<and> le_value (le_bytes 8 t) = t
       \<and> ((\<forall>x. length (H x) = 32) \<longrightarrow>
            (\<exists>digest. generate_header_hash H bn addr diff ph t
                        = Inr digest \<and> length digest = 32))"
proof -
  have g: "generate_header_hash H bn addr diff ph t
           = Inr (H (le_bytes 8 bn @ addr @ le_bytes 32 diff
                            @ ph @ le_bytes 8 t))"
    using assms by (simp add: generate_header_hash_def pack_Q_def to_bytes_little_def)
  have v1: "le_value (le_bytes 8 bn) = bn"
    using assms by (simp add: le_value_le_bytes_id)
  have v2: "le_value (le_bytes 32 diff) = diff"
    using assms by (simp add: le_value_le_bytes_id)
  have v3: "le_value (le_bytes 8 t) = t"
    using assms by (simp add: le_value_le_bytes_id)
  show ?thesis
    by (simp add: g v1 v2 v3 length_le_bytes)
qed

theorem generate_header_hash_concat_witness:
  "generate_header_hash (\<lambda>x. take 32 (x @ replicate 32 0)) 258 [0, 7] 1000 [9] 3
     = Inr ([2, 1, 0, 0, 0, 0, 0, 0, 0, 7, 232, 3] @ replicate 20 0)
   \<and> le_value (le_bytes 8 258) = 258"
proof -
  have e: "le_bytes 8 258 @ [0, 7] @ le_bytes 32 1000 @ [9] @ le_bytes 8 3
             = [2, 1, 0, 0, 0, 0, 0, 0, 0, 7, 232, 3] @ replicate 30 (0::byte) @ [9, 3]
                 @ replicate 7 0"
    by code_simp
  have t: "take 32 (([2, 1, 0, 0, 0, 0, 0, 0, 0, 7, 232, 3] @ replicate 30 (0::byte) @ [9, 3]
                 @ replicate 7 0) @ replicate 32 0)
             = [2, 1, 0, 0, 0, 0, 0, 0, 0, 7, 232, 3] @ replicate 20 0"
    by code_simp
  show ?thesis
    using generate_header_hash_concat
            [of 258 1000 3 "\<lambda>x. take 32 (x @ replicate 32 0)" "[0, 7]" "[9]"]
    by (simp only: e t) simp
qed

text \<open>
  Claim C7: for every header digest and every nonce in \<open>[0, 2 ^ 64)\<close>, the hash
  attempt of the mining loop is the one hash function applied twice in sequence to
  the header digest followed by the 8-byte little-endian nonce.
\<close>

theorem hash_attempt_double:
  assumes "0 \<le> n" "n < 2 ^ 64"
  shows "hash_attempt H hh n
           = Inr (H (H (hh @ le_bytes 8 n)))
       \<and> length (le_bytes 8 n) = 8 \<and> le_value (le_bytes 8 n) = n"
  using assms
  by (simp add: hash_attempt_def pack_Q_ok sha3_256d_def length_le_bytes le_value_le_bytes_id)

theorem hash_attempt_double_witness:
  "hash_attempt (\<lambda>x. take 2 x) [5, 6] 513 = Inr [5, 6]
   \<and> le_value (le_bytes 8 513) = 513"
proof -
  have e: "le_bytes 8 513 = [1, 2, 0, 0, 0, 0, 0, 0]" by code_simp
  show ?thesis
    using hash_attempt_double [of 513 "\<lambda>x. take 2 x" "[5, 6]"]
    by (simp add: e)
qed

section \<open>Properties of the address decoding\<close>

lemma base32_value_snoc: "base32_value (vs @ [v]) = base32_value vs * 32 + int v"
proof -
  have "(\<Sum>i<length vs. int ((vs @ [v]) ! i) * 32 ^ (length vs - i))
          = (\<Sum>i<length vs. (int (vs ! i) * 32 ^ (length vs - 1 - i)) * 32)"
  proof (rule sum.cong)
    fix i assume "i \<in> {..<length vs}"
    then have i: "i < length vs" by simp
    then have "length vs - i = Suc (length vs - 1 - i)" by simp
    then show "int ((vs @ [v]) ! i) * 32 ^ (length vs - i)
                 = (int (vs ! i) * 32 ^ (length vs - 1 - i)) * 32"
      using i by (simp add: nth_append)
  qed simp
  then show ?thesis
    by (simp add: base32_value_def sum_distrib_right)
qed

lemma base32_value_nonneg: "0 \<le> base32_value vs"
  by (simp add: base32_value_def sum_nonneg)

lemma push_or_add:
  assumes "v < 32"
  shows "push_bit 5 acc OR int v = acc * 32 + int v"
proof -
  have t: "take_bit 5 (int v) = int v"
    using assms by (simp add: take_bit_int_eq_self)
  have "push_bit 5 acc AND take_bit 5 (int v) = 0"
    by (rule bit_eqI) (simp add: bit_simps)
  then have "push_bit 5 acc AND int v = 0" by (simp only: t)
  then have "push_bit 5 acc + int v = push_bit 5 acc OR int v"
    by (rule disjunctive_add_eq_or)
  then show ?thesis by (simp add: push_bit_eq_mult)
qed

lemma low_byte: "drop_bit m (a::int) AND 0xFF = (a div 2 ^ m) mod 256"
proof -
  have "drop_bit m a AND mask 8 = take_bit 8 (drop_bit m a)"
    by (simp add: take_bit_eq_mask)
  moreover have "(mask 8 :: int) = 255" by (simp add: mask_eq_exp_minus_1)
  ultimately show ?thesis
    by (simp add: take_bit_eq_mod drop_bit_eq_div)
qed

lemma shift_in:
  assumes "v < 32"
  shows "(acc * 32 + int v) div 2 ^ (m + 5) = acc div 2 ^ m"
proof -
  have a: "(acc * 32 + int v) div 32 = acc"
    using assms by simp
  have "(acc * 32 + int v) div (32 * 2 ^ m) = ((acc * 32 + int v) div 32) div 2 ^ m"
    by (rule zdiv_zmult2_eq) simp
  then show ?thesis
    by (simp add: a power_add mult.commute)
qed

lemma drain_small:
  assumes "bits < 16"
  shows "drain acc bits result =
           (if 8 \<le> bits then (bits - 8, result @ [drop_bit (bits - 8) acc AND 0xFF])
            else (bits, result))"
proof (cases "8 \<le> bits")
  case True
  have "\<not> 8 \<le> bits - 8" using assms by simp
  then have "drain acc (bits - 8) (result @ [drop_bit (bits - 8) acc AND 0xFF])
               = (bits - 8, result @ [drop_bit (bits - 8) acc AND 0xFF])"
    by (simp add: drain.simps [of acc "bits - 8"])
  with True show ?thesis by (simp add: drain.simps [of acc bits result])
next
  case False
  then show ?thesis by (simp add: drain.simps [of acc bits result])
qed

lemma div_mod_8: "b < 8 \<Longrightarrow> (8 * q + b) div 8 = q \<and> (8 * q + b) mod 8 = (b::nat)"
  by simp

lemma five_step:
  fixes n :: nat
  defines "q \<equiv> 5 * n div 8" and "b \<equiv> 5 * n mod 8"
  shows "5 * n = 8 * q + b" and "b < 8"
    and "8 \<le> b + 5 \<Longrightarrow> 5 * Suc n div 8 = q + 1 \<and> 5 * Suc n mod 8 = b + 5 - 8"
    and "\<not> 8 \<le> b + 5 \<Longrightarrow> 5 * Suc n div 8 = q \<and> 5 * Suc n mod 8 = b + 5"
proof -
  show e: "5 * n = 8 * q + b" by (simp add: q_def b_def)
  have s: "5 * Suc n = 5 * n + 5" by simp
  show l: "b < 8" by (simp add: b_def)
  show "5 * Suc n div 8 = q + 1 \<and> 5 * Suc n mod 8 = b + 5 - 8" if h: "8 \<le> b + 5"
  proof -
    have E: "5 * Suc n = 8 * (q + 1) + (b + 5 - 8)" using e h s by arith
    have L: "b + 5 - 8 < 8" using l by linarith
    show ?thesis using div_mod_8 [OF L, of "q + 1"] by (simp only: E)
  qed
  show "5 * Suc n div 8 = q \<and> 5 * Suc n mod 8 = b + 5" if h: "\<not> 8 \<le> b + 5"
  proof -
    have E: "5 * Suc n = 8 * q + (b + 5)" using e s by arith
    have L: "b + 5 < 8" using h by linarith
    show ?thesis using div_mod_8 [OF L, of q] by (simp only: E)
  qed
qed


lemma decode_step_exact:
  assumes "v < 32" and "bits < 8"
  shows "decode_step (acc, bits, result) v =
           (acc * 32 + int v,
            (if 8 \<le> bits + 5 then bits + 5 - 8 else bits + 5),
            (if 8 \<le> bits + 5
             then result @ [((acc * 32 + int v) div 2 ^ (bits + 5 - 8)) mod 256]
             else result))"
proof -
  have "bits + 5 < 16" using assms(2) by simp
  then show ?thesis
    using assms(1) by (simp add: decode_step_def push_or_add drain_small low_byte Let_def)
qed

lemma foldl_decode_exact:
  assumes "\<forall>v \<in> set vs. v < 32"
  shows "\<exists>result. foldl decode_step (0, 0, []) vs
                    = (base32_value vs, 5 * length vs mod 8, result)
           \<and> length result = 5 * length vs div 8
           \<and> (\<forall>j < length result.
                 result ! j = (base32_value vs div 2 ^ (5 * length vs - 8 * (j + 1))) mod 256)"
  using assms
proof (induction vs rule: rev_induct)
  case Nil
  show ?case by (simp add: base32_value_def)
next
  case (snoc v vs)
  let ?n = "length vs"
  define q where "q = 5 * ?n div 8"
  define b where "b = 5 * ?n mod 8"
  let ?A = "base32_value vs"
  let ?A' = "base32_value (vs @ [v])"
  have v: "v < 32" using snoc.prems by simp
  have A': "?A' = ?A * 32 + int v" by (rule base32_value_snoc)
  from snoc obtain R where
    f: "foldl decode_step (0, 0, []) vs = (?A, b, R)"
    and l: "length R = q"
    and r: "\<forall>j < length R. R ! j = (?A div 2 ^ (5 * ?n - 8 * (j + 1))) mod 256"
    by (auto simp: q_def b_def)
  have b: "b < 8" by (simp add: b_def)
  have e: "5 * ?n = 8 * q + b" unfolding q_def b_def by (rule five_step(1))
  have dmT: "5 * Suc ?n div 8 = q + 1 \<and> 5 * Suc ?n mod 8 = b + 5 - 8" if "8 \<le> b + 5"
    using that unfolding q_def b_def by (rule five_step(3))
  have dmF: "5 * Suc ?n div 8 = q \<and> 5 * Suc ?n mod 8 = b + 5" if "\<not> 8 \<le> b + 5"
    using that unfolding q_def b_def by (rule five_step(4))
  have s: "5 * Suc ?n = 5 * ?n + 5" by simp
  have old: "(?A' div 2 ^ (5 * Suc ?n - 8 * (j + 1))) mod 256 = R ! j" if j: "j < q" for j
  proof -
    have "8 * (j + 1) \<le> 8 * q" using j by simp
    then have "8 * (j + 1) \<le> 5 * ?n" using e by linarith
    then have "5 * Suc ?n - 8 * (j + 1) = (5 * ?n - 8 * (j + 1)) + 5" using s by linarith
    then have "?A' div 2 ^ (5 * Suc ?n - 8 * (j + 1)) = ?A div 2 ^ (5 * ?n - 8 * (j + 1))"
      using shift_in [OF v, of ?A "5 * ?n - 8 * (j + 1)"] by (simp only: A')
    then show ?thesis using r j l by simp
  qed
  show ?case
  proof (cases "8 \<le> b + 5")
    case True
    note dm = dmT [OF True]
    let ?R' = "R @ [(?A' div 2 ^ (b + 5 - 8)) mod 256]"
    have d: "decode_step (?A, b, R) v = (?A', b + 5 - 8, ?R')"
      using decode_step_exact [OF v b, of ?A R] True by (simp add: A')
    have st: "foldl decode_step (0, 0, []) (vs @ [v]) = (?A', 5 * Suc ?n mod 8, ?R')"
      using d dm by (simp add: f)
    have len: "length ?R' = 5 * Suc ?n div 8" using l dm by simp
    have x: "5 * Suc ?n = 8 * (q + 1) + (b + 5 - 8)" using e True s by arith
    have new: "5 * Suc ?n - 8 * (q + 1) = b + 5 - 8"
      by (simp only: x add_diff_cancel_left')
    have all: "?R' ! j = (?A' div 2 ^ (5 * Suc ?n - 8 * (j + 1))) mod 256"
      if j: "j < length ?R'" for j
    proof (cases "j < q")
      case True
      then show ?thesis using old [of j] l by (simp add: nth_append)
    next
      case False
      with j l have "j = q" by simp
      then show ?thesis using l new by (simp add: nth_append)
    qed
    show ?thesis using st len all by simp
  next
    case False
    note dm = dmF [OF False]
    have d: "decode_step (?A, b, R) v = (?A', b + 5, R)"
      using decode_step_exact [OF v b, of ?A R] False by (simp add: A')
    have st: "foldl decode_step (0, 0, []) (vs @ [v]) = (?A', 5 * Suc ?n mod 8, R)"
      using d dm by (simp add: f)
    have len: "length R = 5 * Suc ?n div 8" using l dm by simp
    have all: "R ! j = (?A' div 2 ^ (5 * Suc ?n - 8 * (j + 1))) mod 256"
      if j: "j < length R" for j
      using old [of j] j l by simp
    show ?thesis using st len all by simp
  qed
qed


lemma str_index_Some:
  "str_index xs c = Some i \<Longrightarrow> i < length xs \<and> xs ! i = c"
  by (induction xs arbitrary: i) (auto split: if_splits)

lemma str_index_None: "str_index xs c = None \<longleftrightarrow> c \<notin> set xs"
  by (induction xs) auto

lemma those_map_Some:
  "those (map f xs) = Some ys
     \<Longrightarrow> length ys = length xs \<and> (\<forall>i < length xs. f (xs ! i) = Some (ys ! i))"
proof (induction xs arbitrary: ys)
  case Nil
  then show ?case by simp
next
  case (Cons x xs)
  from Cons.prems obtain y ys' where
    y: "f x = Some y" and t: "those (map f xs) = Some ys'" and ys: "ys = y # ys'"
    by (auto split: option.splits)
  from Cons.IH [OF t] y ys show ?case
    by (auto simp: nth_Cons split: nat.splits)
qed

lemma those_map_None:
  "those (map f xs) = None \<longleftrightarrow> (\<exists>x \<in> set xs. f x = None)"
  by (induction xs) (auto split: option.splits)

lemma length_charset: "length charset = 32"
  by (simp add: charset_def)

lemma decode_xet_address_exact:
  assumes "decode_xet_address address = Inr xs"
  shows "\<exists>prefix data_part data_5bit payload.
           str_split CHR '':'' [] address = [prefix, data_part]
         \<and> length data_5bit = length data_part
         \<and> (\<forall>i < length data_part.
               data_5bit ! i < 32 \<and> charset ! (data_5bit ! i) = data_part ! i)
         \<and> xs = 0 # payload
         \<and> length payload = min 33 (5 * length data_part div 8)
         \<and> (\<forall>k < length payload.
               payload ! k
                 = (base32_value data_5bit div 2 ^ (5 * length data_part - 8 * (k + 1)))
                     mod 256)"
proof -
  from assms obtain prefix data_part data_5bit where
    sp: "str_split CHR '':'' [] address = [prefix, data_part]"
    and th: "those (map (str_index charset) data_part) = Some data_5bit"
    and r: "xs = (case foldl decode_step (0, 0, []) data_5bit of
                   (acc, bits, result) \<Rightarrow> 0 # take 33 result)"
    by (auto simp: decode_xet_address_def split: list.splits option.splits prod.splits)
  from those_map_Some [OF th] have
    n: "length data_5bit = length data_part"
    and ix: "\<forall>i < length data_part. str_index charset (data_part ! i) = Some (data_5bit ! i)"
    by simp_all
  have c: "\<forall>i < length data_part.
             data_5bit ! i < 32 \<and> charset ! (data_5bit ! i) = data_part ! i"
    using ix str_index_Some [of charset] length_charset by auto
  have small: "\<forall>v \<in> set data_5bit. v < 32"
    using c n by (auto simp: in_set_conv_nth)
  from foldl_decode_exact [OF small] obtain result where
    f: "foldl decode_step (0, 0, []) data_5bit
          = (base32_value data_5bit, 5 * length data_5bit mod 8, result)"
    and l: "length result = 5 * length data_5bit div 8"
    and e: "\<forall>j < length result.
              result ! j
                = (base32_value data_5bit div 2 ^ (5 * length data_5bit - 8 * (j + 1))) mod 256"
    by blast
  have x: "xs = 0 # take 33 result" using r f by simp
  have lp: "length (take 33 result) = min 33 (5 * length data_part div 8)"
    using l n by simp
  have ep: "\<forall>k < length (take 33 result).
              take 33 result ! k
                = (base32_value data_5bit div 2 ^ (5 * length data_part - 8 * (k + 1))) mod 256"
    using e n by simp
  show ?thesis
    using sp n c x lp ep by blast
qed

lemma decode_xet_address_accepts:
  "(\<exists>xs. decode_xet_address address = Inr xs)
     \<longleftrightarrow> (\<exists>prefix data_part. str_split CHR '':'' [] address = [prefix, data_part]
                               \<and> set data_part \<subseteq> set charset)"
proof
  assume "\<exists>xs. decode_xet_address address = Inr xs"
  then obtain xs prefix data_part data_5bit where
    sp: "str_split CHR '':'' [] address = [prefix, data_part]"
    and th: "those (map (str_index charset) data_part) = Some data_5bit"
    by (auto simp: decode_xet_address_def split: list.splits option.splits prod.splits)
  have "\<not> (\<exists>c \<in> set data_part. str_index charset c = None)"
    using th those_map_None [of "str_index charset" data_part] by simp
  then have "set data_part \<subseteq> set charset"
    by (auto simp: str_index_None)
  with sp show "\<exists>prefix data_part. str_split CHR '':'' [] address = [prefix, data_part]
                               \<and> set data_part \<subseteq> set charset"
    by blast
next
  assume "\<exists>prefix data_part. str_split CHR '':'' [] address = [prefix, data_part]
                               \<and> set data_part \<subseteq> set charset"
  then obtain prefix data_part where
    sp: "str_split CHR '':'' [] address = [prefix, data_part]"
    and sub: "set data_part \<subseteq> set charset"
    by blast
  have "those (map (str_index charset) data_part) \<noteq> None"
    using sub by (auto simp: those_map_None str_index_None)
  then obtain data_5bit where "those (map (str_index charset) data_part) = Some data_5bit"
    by blast
  with sp show "\<exists>xs. decode_xet_address address = Inr xs"
    by (simp add: decode_xet_address_def split: prod.splits)
qed


lemma bytes_of_ints_ok:
  assumes "\<forall>k < length xs. 0 \<le> xs ! k \<and> xs ! k < 256"
  shows "bytes_of_ints xs = Inr (map word_of_int xs)"
  using assms by (auto simp: bytes_of_ints_def in_set_conv_nth)

text \<open>
  Claim C8, amended: an address string is accepted exactly when it has one colon and
  every character after it is in the Bech32 character set. The decoded miner address
  is then a zero byte followed by the first 33 bytes of the data part regrouped from 5
  to 8 bits: with the data part read as one base-32 numeral of \<open>n\<close> digits, byte \<open>k\<close>
  of the payload is that number shifted right by \<open>5 n - 8 (k + 1)\<close> bits, modulo 256,
  and there are \<open>min 33 (5 n div 8)\<close> payload bytes: at most 34 bytes in all, and
  exactly 34 (a 1-byte prefix and a 33-byte payload) when the data part has at least
  53 characters.
\<close>

theorem decode_address_bytes_exact:
  "((\<exists>bs'. decode_address_bytes address = Inr bs')
      \<longleftrightarrow> (\<exists>prefix data_part. str_split CHR '':'' [] address = [prefix, data_part]
                                \<and> set data_part \<subseteq> set charset))
   \<and> (decode_address_bytes address = Inr bs
      \<longrightarrow> (\<exists>prefix data_part data_5bit payload.
             str_split CHR '':'' [] address = [prefix, data_part]
           \<and> length data_5bit = length data_part
           \<and> (\<forall>i < length data_part.
                 data_5bit ! i < 32 \<and> charset ! (data_5bit ! i) = data_part ! i)
           \<and> bs = 0 # payload
           \<and> length payload = min 33 (5 * length data_part div 8)
           \<and> (\<forall>k < length payload.
                 uint (payload ! k)
                   = (base32_value data_5bit div 2 ^ (5 * length data_part - 8 * (k + 1)))
                       mod 256)
           \<and> length bs \<le> 34
           \<and> (53 \<le> length data_part \<longrightarrow> length bs = 34)))"
proof -
  have conv: "\<exists>prefix data_part data_5bit payload.
             str_split CHR '':'' [] address = [prefix, data_part]
           \<and> length data_5bit = length data_part
           \<and> (\<forall>i < length data_part.
                 data_5bit ! i < 32 \<and> charset ! (data_5bit ! i) = data_part ! i)
           \<and> map word_of_int xs = (0::byte) # payload
           \<and> bytes_of_ints xs = Inr (map word_of_int xs)
           \<and> length payload = min 33 (5 * length data_part div 8)
           \<and> (\<forall>k < length payload.
                 uint (payload ! k)
                   = (base32_value data_5bit div 2 ^ (5 * length data_part - 8 * (k + 1)))
                       mod 256)"
    if d: "decode_xet_address address = Inr xs" for xs
  proof -
    from decode_xet_address_exact [OF d] obtain prefix data_part data_5bit ps where
      sp: "str_split CHR '':'' [] address = [prefix, data_part]"
      and n: "length data_5bit = length data_part"
      and c: "\<forall>i < length data_part.
                 data_5bit ! i < 32 \<and> charset ! (data_5bit ! i) = data_part ! i"
      and x: "xs = 0 # ps"
      and lp: "length ps = min 33 (5 * length data_part div 8)"
      and ep: "\<forall>k < length ps.
                 ps ! k = (base32_value data_5bit div 2 ^ (5 * length data_part - 8 * (k + 1)))
                            mod 256"
      by blast
    have rng: "\<forall>k < length ps. 0 \<le> ps ! k \<and> ps ! k < 256"
      using ep by simp
    have rx: "\<forall>k < length xs. 0 \<le> xs ! k \<and> xs ! k < 256"
      using rng x by (auto simp: nth_Cons split: nat.splits)
    have b: "bytes_of_ints xs = Inr (map word_of_int xs)"
      using rx by (rule bytes_of_ints_ok)
    have m: "map word_of_int xs = (0::byte) # map word_of_int ps"
      using x by simp
    have u: "\<forall>k < length (map word_of_int ps :: bytes).
               uint (map word_of_int ps ! k :: byte)
                 = (base32_value data_5bit div 2 ^ (5 * length data_part - 8 * (k + 1)))
                     mod 256"
      using ep by (simp add: uint_word_of_int)
    have l: "length (map word_of_int ps :: bytes) = min 33 (5 * length data_part div 8)"
      using lp by simp
    show ?thesis
      apply (rule exI [of _ prefix], rule exI [of _ data_part], rule exI [of _ data_5bit])
      apply (rule exI [of _ "map word_of_int ps"])
      using sp n c m b l u by (intro conjI) assumption+
  qed
  have acc: "(\<exists>bs'. decode_address_bytes address = Inr bs')
      \<longleftrightarrow> (\<exists>xs. decode_xet_address address = Inr xs)"
  proof
    assume "\<exists>bs'. decode_address_bytes address = Inr bs'"
    then show "\<exists>xs. decode_xet_address address = Inr xs"
      by (auto simp: decode_address_bytes_def split: sum.splits)
  next
    assume "\<exists>xs. decode_xet_address address = Inr xs"
    then obtain xs where d: "decode_xet_address address = Inr xs" by blast
    from conv [OF d] have "bytes_of_ints xs = Inr (map word_of_int xs)" by blast
    with d show "\<exists>bs'. decode_address_bytes address = Inr bs'"
      by (simp add: decode_address_bytes_def)
  qed
  have c1: "(\<exists>bs'. decode_address_bytes address = Inr bs')
      \<longleftrightarrow> (\<exists>prefix data_part. str_split CHR '':'' [] address = [prefix, data_part]
                                \<and> set data_part \<subseteq> set charset)"
    using acc decode_xet_address_accepts [of address] by simp
  have c2: "\<exists>prefix data_part data_5bit payload.
             str_split CHR '':'' [] address = [prefix, data_part]
           \<and> length data_5bit = length data_part
           \<and> (\<forall>i < length data_part.
                 data_5bit ! i < 32 \<and> charset ! (data_5bit ! i) = data_part ! i)
           \<and> bs = 0 # payload
           \<and> length payload = min 33 (5 * length data_part div 8)
           \<and> (\<forall>k < length payload.
                 uint (payload ! k)
                   = (base32_value data_5bit div 2 ^ (5 * length data_part - 8 * (k + 1)))
                       mod 256)
           \<and> length bs \<le> 34
           \<and> (53 \<le> length data_part \<longrightarrow> length bs = 34)"
    if a: "decode_address_bytes address = Inr bs"
  proof -
    from a obtain xs where
      d: "decode_xet_address address = Inr xs" and b: "bytes_of_ints xs = Inr bs"
      by (auto simp: decode_address_bytes_def split: sum.splits)
    from conv [OF d] obtain prefix data_part data_5bit payload where
      sp: "str_split CHR '':'' [] address = [prefix, data_part]"
      and n: "length data_5bit = length data_part"
      and c: "\<forall>i < length data_part.
                 data_5bit ! i < 32 \<and> charset ! (data_5bit ! i) = data_part ! i"
      and m: "map word_of_int xs = (0::byte) # payload"
      and ok: "bytes_of_ints xs = Inr (map word_of_int xs)"
      and l: "length payload = min 33 (5 * length data_part div 8)"
      and u: "\<forall>k < length payload.
                 uint (payload ! k)
                   = (base32_value data_5bit div 2 ^ (5 * length data_part - 8 * (k + 1)))
                       mod 256"
      by (elim exE conjE) (rule that)
    have bs: "bs = 0 # payload" using b ok m by simp
    have l1: "length bs \<le> 34" using bs l by simp
    have l2: "53 \<le> length data_part \<longrightarrow> length bs = 34" using bs l by auto
    show ?thesis
      apply (rule exI [of _ prefix], rule exI [of _ data_part], rule exI [of _ data_5bit])
      apply (rule exI [of _ payload])
      using sp n c bs l u l1 l2 by (intro conjI) assumption+
  qed
  show ?thesis
    using c1 c2 by blast
qed


theorem decode_address_bytes_exact_witness:
  "decode_address_bytes usage_address = Inr usage_address_bytes
   \<and> (\<exists>prefix data_part. str_split CHR '':'' [] usage_address = [prefix, data_part]
                           \<and> set data_part \<subseteq> set charset)
   \<and> (\<exists>prefix data_part data_5bit payload.
             str_split CHR '':'' [] usage_address = [prefix, data_part]
           \<and> length data_5bit = length data_part
           \<and> (\<forall>i < length data_part.
                 data_5bit ! i < 32 \<and> charset ! (data_5bit ! i) = data_part ! i)
           \<and> usage_address_bytes = 0 # payload
           \<and> length payload = min 33 (5 * length data_part div 8)
           \<and> (\<forall>k < length payload.
                 uint (payload ! k)
                   = (base32_value data_5bit div 2 ^ (5 * length data_part - 8 * (k + 1)))
                       mod 256)
           \<and> length usage_address_bytes \<le> 34
           \<and> (53 \<le> length data_part \<longrightarrow> length usage_address_bytes = 34))
   \<and> length usage_address_bytes = 34"
proof -
  note t = decode_address_bytes_exact [of usage_address usage_address_bytes]
  have e: "decode_address_bytes usage_address = Inr usage_address_bytes"
    by code_simp
  have l: "length usage_address_bytes = 34"
    by (simp add: usage_address_bytes_def)
  have "\<exists>bs'. decode_address_bytes usage_address = Inr bs'"
    using e by (rule exI)
  with t have c1: "\<exists>prefix data_part. str_split CHR '':'' [] usage_address = [prefix, data_part]
                           \<and> set data_part \<subseteq> set charset"
    by (simp only:)
  from t e have c2: "\<exists>prefix data_part data_5bit payload.
             str_split CHR '':'' [] usage_address = [prefix, data_part]
           \<and> length data_5bit = length data_part
           \<and> (\<forall>i < length data_part.
                 data_5bit ! i < 32 \<and> charset ! (data_5bit ! i) = data_part ! i)
           \<and> usage_address_bytes = 0 # payload
           \<and> length payload = min 33 (5 * length data_part div 8)
           \<and> (\<forall>k < length payload.
                 uint (payload ! k)
                   = (base32_value data_5bit div 2 ^ (5 * length data_part - 8 * (k + 1)))
                       mod 256)
           \<and> length usage_address_bytes \<le> 34
           \<and> (53 \<le> length data_part \<longrightarrow> length usage_address_bytes = 34)"
    by (simp only:)
  show ?thesis
    using e c1 c2 l by (intro conjI)
qed

text \<open>
  Claim C8, as stated, gives the decoded address 33 bytes: a 1-byte prefix and a
  32-byte payload. The address of the program's own usage example is accepted and
  decodes to these 34 bytes.
\<close>

theorem decode_address_bytes_counterexample:
  "decode_address_bytes usage_address = Inr usage_address_bytes
   \<and> length usage_address_bytes = 34"
  by code_simp

section \<open>Properties of the submission results\<close>

lemma digit_char_in: "d < 10 \<Longrightarrow> digit_char d \<in> set ''0123456789''"
  unfolding digit_char_def by (rule nth_mem) simp

lemma str_nat_digits: "set (str_nat n) \<subseteq> set ''0123456789''"
proof (induction n rule: str_nat.induct)
  case (1 n)
  show ?case
  proof (cases "n < 10")
    case True
    then show ?thesis
      using digit_char_in [of n] by (simp add: str_nat.simps [of n])
  next
    case False
    have "n mod 10 < 10" by simp
    then have "digit_char (n mod 10) \<in> set ''0123456789''" by (rule digit_char_in)
    with 1 False show ?thesis
      by (simp add: str_nat.simps [of n])
  qed
qed

lemma str_int_no_M: "CHR ''M'' \<notin> set (str_int n)"
proof -
  have "CHR ''M'' \<notin> set ''0123456789''" by simp
  then have "CHR ''M'' \<notin> set (str_nat k)" for k
    using str_nat_digits [of k] by blast
  then show ?thesis by (simp add: str_int_def)
qed

lemma unknown_message_no_match:
  "\<not> sublist ''Max supply reached'' (unknown_code_prefix @ str_int n)"
proof
  assume "sublist ''Max supply reached'' (unknown_code_prefix @ str_int n)"
  then have "set ''Max supply reached'' \<subseteq> set (unknown_code_prefix @ str_int n)"
    by (rule set_mono_sublist)
  then have "CHR ''M'' \<in> set (unknown_code_prefix @ str_int n)" by auto
  moreover have "CHR ''M'' \<notin> set unknown_code_prefix"
    by (simp add: unknown_code_prefix_def)
  ultimately show False using str_int_no_M [of n] by simp
qed

lemma known_messages:
  "map_option exit_message (map_of error_codes 0) = Some False"
  "map_option exit_message (map_of error_codes 1) = Some True"
  "map_option exit_message (map_of error_codes 2) = Some False"
  "map_option exit_message (map_of error_codes 3) = Some False"
  "map_option exit_message (map_of error_codes 4) = Some False"
  by code_simp+

lemma other_codes:
  "n \<noteq> 0 \<Longrightarrow> n \<noteq> 1 \<Longrightarrow> n \<noteq> 2 \<Longrightarrow> n \<noteq> 3 \<Longrightarrow> n \<noteq> 4 \<Longrightarrow> map_of error_codes n = None"
  by (simp add: error_codes_def)

lemma exit_message_iff:
  "(case map_of error_codes n of
      Some msg \<Rightarrow> exit_message msg
    | None \<Rightarrow> exit_message (unknown_code_prefix @ str_int n))
   \<longleftrightarrow> n = 1"
proof -
  consider "n = 0" | "n = 1" | "n = 2" | "n = 3" | "n = 4"
    | "n \<noteq> 0" "n \<noteq> 1" "n \<noteq> 2" "n \<noteq> 3" "n \<noteq> 4"
    by blast
  then show ?thesis
  proof cases
    case 1
    with known_messages(1) show ?thesis by (auto split: option.splits)
  next
    case 2
    with known_messages(2) show ?thesis by (auto split: option.splits)
  next
    case 3
    with known_messages(3) show ?thesis by (auto split: option.splits)
  next
    case 4
    with known_messages(4) show ?thesis by (auto split: option.splits)
  next
    case 5
    with known_messages(5) show ?thesis by (auto split: option.splits)
  next
    case 6
    then show ?thesis
      using unknown_message_no_match [of n]
      by (simp add: other_codes exit_message_def)
  qed
qed

lemma handle_submission_code:
  "handle_submission r =
     (if \<exists>res. r = Inr res \<and> return_code_of res = Some 1 then SysExit 0 else Continue)"
proof (cases r)
  case (Inl e)
  then show ?thesis by (simp add: handle_submission_def)
next
  case (Inr res)
  show ?thesis
  proof (cases "return_code_of res")
    case None
    with Inr show ?thesis by (simp add: handle_submission_def parse_contract_error_def)
  next
    case (Some n)
    show ?thesis
      using exit_message_iff [of n] Inr Some
      by (auto simp: handle_submission_def parse_contract_error_def split: option.splits)
  qed
qed



section \<open>Properties of the two threads\<close>

lemma listener_step_miner: "miner (listener_step w msg s) = miner s"
  by (simp add: listener_step_def split: listener_pc.splits sum.splits handled.splits)

lemma listener_step_awaiting:
  "awaiting_confirmation (state (listener_step w msg s)) \<Longrightarrow> awaiting_confirmation (state s)"
  by (simp add: listener_step_def split: listener_pc.splits sum.splits handled.splits if_splits)

lemma miner_step_awaiting:
  "awaiting_confirmation (state (miner_step w e s))
     \<longleftrightarrow> awaiting_confirmation (state s) \<or> pc (miner s) = SetAwaiting"
  by (cases "pc (miner s)")
     (simp_all add: miner_step_def goto_def Let_def
        split: sum.splits prod.splits bool.splits)

lemma miner_step_listener: "listener (miner_step w e s) = listener s"
  by (cases "pc (miner s)")
     (simp_all add: miner_step_def goto_def Let_def
        split: sum.splits prod.splits bool.splits)

lemma miner_step_last_message: "last_message (miner_step w e s) = last_message s"
  by (cases "pc (miner s)")
     (simp_all add: miner_step_def goto_def Let_def
        split: sum.splits prod.splits bool.splits)

lemma miner_step_pc_cases:
  "pc (miner (miner_step w e s)) \<in>
     (case pc (miner s) of
        WaitRestart \<Rightarrow> {WaitRestart, AcquireLock}
      | AcquireLock \<Rightarrow> (if awaiting_confirmation (state s) then {WaitRestart} else {Syncing})
      | Syncing \<Rightarrow> {WaitRestart, ClearRestart}
      | ClearRestart \<Rightarrow> {BuildHeader}
      | BuildHeader \<Rightarrow> {WaitRestart, LoopTest}
      | LoopTest \<Rightarrow> {WaitRestart, Hashing}
      | Hashing \<Rightarrow> {LoopTest, Submitting} \<union> range Crashed
      | Submitting \<Rightarrow> {SetAwaiting, Exited}
      | SetAwaiting \<Rightarrow> {ClearAfterSubmit}
      | ClearAfterSubmit \<Rightarrow> {WaitAfterSubmit}
      | WaitAfterSubmit \<Rightarrow> {WaitAfterSubmit, WaitRestart}
      | Exited \<Rightarrow> {Exited}
      | Crashed err \<Rightarrow> {Crashed err})"
  by (cases "pc (miner s)")
     (simp_all add: miner_step_def goto_def Let_def
        split: sum.splits prod.splits bool.splits submit_outcome.splits)

lemma awaiting_outside_cycle:
  assumes "reachable w s" and "awaiting_confirmation (state s)"
  shows "pc (miner s) \<notin> {Syncing, ClearRestart, BuildHeader, LoopTest, Hashing, Submitting,
                          SetAwaiting}"
  using assms
proof (induction rule: reachable.induct)
  case (reachable_initial t0)
  then show ?case by (simp add: initial_def MiningState_init_def)
next
  case (reachable_step s ev)
  show ?case
  proof (cases ev)
    case (ListenerStep msg)
    with reachable_step show ?thesis
      using listener_step_awaiting [of w msg s]
      by (simp add: step_def listener_step_miner)
  next
    case (MinerStep e)
    have a: "awaiting_confirmation (state s) \<or> pc (miner s) = SetAwaiting"
      using reachable_step.prems MinerStep by (simp add: step_def miner_step_awaiting)
    show ?thesis
      using a reachable_step.IH miner_step_pc_cases [of w e s] MinerStep
      by (cases "pc (miner s)") (auto simp: step_def split: if_splits)
  qed
qed


lemma reachable_run: "reachable w s \<Longrightarrow> reachable w (run w evs s)"
proof (induction evs arbitrary: s)
  case Nil
  then show ?case by (simp add: run_def)
next
  case (Cons ev evs)
  have "reachable w (step w ev s)" using Cons.prems by (rule reachable_step)
  then have "reachable w (run w evs (step w ev s))" by (rule Cons.IH)
  then show ?case by (simp add: run_def)
qed

lemma miner_step_into_SetAwaiting:
  assumes "pc (miner (miner_step w e s)) = SetAwaiting"
  shows "pc (miner s) = Submitting
       \<and> submitted (miner (miner_step w e s))
             = submitted (miner s) @ [(nonce (miner s), current_ts (miner s))]
       \<and> nonce (miner (miner_step w e s)) = nonce (miner s)
       \<and> current_ts (miner (miner_step w e s)) = current_ts (miner s)"
  using assms
  by (cases "pc (miner s)")
     (simp_all add: miner_step_def goto_def Let_def
        split: sum.splits prod.splits bool.splits if_splits)

lemma set_awaiting_after_submit:
  assumes "reachable w s" and "pc (miner s) = SetAwaiting"
  shows "submitted (miner s) \<noteq> []
       \<and> last (submitted (miner s)) = (nonce (miner s), current_ts (miner s))"
  using assms
proof (induction rule: reachable.induct)
  case (reachable_initial t0)
  then show ?case by (simp add: initial_def)
next
  case (reachable_step s ev)
  show ?case
  proof (cases ev)
    case (ListenerStep msg)
    with reachable_step show ?thesis by (simp add: step_def listener_step_miner)
  next
    case (MinerStep e)
    with reachable_step.prems have "pc (miner (miner_step w e s)) = SetAwaiting"
      by (simp add: step_def)
    from miner_step_into_SetAwaiting [OF this] MinerStep show ?thesis
      by (simp add: step_def)
  qed
qed

lemma listener_step_pc:
  "listener (listener_step w msg s) \<noteq> Receiving
     \<Longrightarrow> (listener s = Receiving \<and>
           (\<exists>data. msg = Inr data \<and> handle_message (CONTRACT_HASH w) data = Matched
                \<and> last_message (listener_step w msg s) = Some data))
        \<or> (listener s \<noteq> Receiving \<and> last_message (listener_step w msg s) = last_message s)"
  by (cases "listener s")
     (auto simp: listener_step_def split: sum.splits handled.splits if_splits)

lemma listener_matched:
  assumes "reachable w s" and "listener s \<noteq> Receiving"
  shows "\<exists>data. last_message s = Some data \<and> handle_message (CONTRACT_HASH w) data = Matched"
  using assms
proof (induction rule: reachable.induct)
  case (reachable_initial t0)
  then show ?case by (simp add: initial_def)
next
  case (reachable_step s ev)
  show ?case
  proof (cases ev)
    case (ListenerStep msg)
    with reachable_step.prems have "listener (listener_step w msg s) \<noteq> Receiving"
      by (simp add: step_def)
    from listener_step_pc [OF this] reachable_step.IH ListenerStep show ?thesis
      by (auto simp: step_def)
  next
    case (MinerStep e)
    with reachable_step show ?thesis
      by (simp add: step_def miner_step_listener miner_step_last_message)
  qed
qed

lemma listener_step_clears:
  assumes "awaiting_confirmation (state s)"
      and "\<not> awaiting_confirmation (state (listener_step w msg s))"
  shows "listener s = ClearAwaiting \<and> \<not> lock_held (state s)"
  using assms
  by (cases "listener s")
     (auto simp: listener_step_def split: sum.splits handled.splits if_splits)

lemma handle_message_Matched:
  assumes "handle_message contract data = Matched"
  shows "\<exists>result event event_info.
           py_getitem data ''result'' = Inr (JObj result)
         \<and> map_of result ''event'' = Some (JObj event)
         \<and> map_of event ''contract_event'' = Some (JObj event_info)
         \<and> dict_get event_info ''contract'' = JStr contract
         \<and> py_eq_int (dict_get event_info ''id'') CONTRACT_EVENT_ID"
  using assms
  by (auto simp: handle_message_def py_eq_str_def
           split: sum.splits bool.splits json.splits option.splits if_splits)


lemma miner_step_parameters:
  assumes "pc (miner s) \<noteq> Syncing"
  shows "block_number (state (miner_step w e s)) = block_number (state s)
       \<and> difficulty (state (miner_step w e s)) = difficulty (state s)
       \<and> prev_hash (state (miner_step w e s)) = prev_hash (state s)
       \<and> ts (state (miner_step w e s)) = ts (state s)"
  using assms
  by (cases "pc (miner s)")
     (simp_all add: miner_step_def goto_def Let_def
        split: sum.splits prod.splits bool.splits)

lemma miner_step_local_hashes:
  assumes "pc (miner s) \<noteq> Hashing" and "pc (miner s) \<noteq> BuildHeader"
  shows "local_hashes (miner (miner_step w e s)) = local_hashes (miner s)"
  using assms
  by (cases "pc (miner s)")
     (simp_all add: miner_step_def goto_def Let_def
        split: sum.splits prod.splits bool.splits)

text \<open>
  Claim C2: in every reachable state in which \<open>awaiting_confirmation\<close> is true,
  whatever the restart event says, the mining loop is at no place of a search cycle
  and its next step enters none: the step leaves the mining parameters and the count
  of hash attempts as they are, and from the test under the lock it goes back to the
  wait.
\<close>

theorem no_search_while_awaiting:
  assumes "reachable w s" and "awaiting_confirmation (state s)"
  shows "\<not> in_search_cycle (pc (miner s))
       \<and> \<not> in_search_cycle (pc (miner (miner_step w e s)))
       \<and> block_number (state (miner_step w e s)) = block_number (state s)
       \<and> difficulty (state (miner_step w e s)) = difficulty (state s)
       \<and> prev_hash (state (miner_step w e s)) = prev_hash (state s)
       \<and> ts (state (miner_step w e s)) = ts (state s)
       \<and> local_hashes (miner (miner_step w e s)) = local_hashes (miner s)
       \<and> (pc (miner s) = AcquireLock \<longrightarrow> pc (miner (miner_step w e s)) = WaitRestart)"
proof -
  have out: "pc (miner s) \<notin> {Syncing, ClearRestart, BuildHeader, LoopTest, Hashing, Submitting,
                                 SetAwaiting}"
    using assms by (rule awaiting_outside_cycle)
  have r': "reachable w (step w (MinerStep e) s)"
    using assms(1) by (rule reachable_step)
  have a': "awaiting_confirmation (state (step w (MinerStep e) s))"
    using assms(2) by (simp add: step_def miner_step_awaiting)
  have out': "pc (miner (step w (MinerStep e) s))
                \<notin> {Syncing, ClearRestart, BuildHeader, LoopTest, Hashing, Submitting,
                    SetAwaiting}"
    using r' a' by (rule awaiting_outside_cycle)
  have c1: "\<not> in_search_cycle (pc (miner s))"
    using out by (simp add: in_search_cycle_def)
  have c2: "\<not> in_search_cycle (pc (miner (miner_step w e s)))"
    using out' by (simp add: in_search_cycle_def step_def)
  have c3: "block_number (state (miner_step w e s)) = block_number (state s)
       \<and> difficulty (state (miner_step w e s)) = difficulty (state s)
       \<and> prev_hash (state (miner_step w e s)) = prev_hash (state s)
       \<and> ts (state (miner_step w e s)) = ts (state s)"
    using out by (intro miner_step_parameters) simp
  have c4: "local_hashes (miner (miner_step w e s)) = local_hashes (miner s)"
    using out by (intro miner_step_local_hashes) simp_all
  have c5: "pc (miner s) = AcquireLock \<longrightarrow> pc (miner (miner_step w e s)) = WaitRestart"
    using assms(2) miner_step_pc_cases [of w e s] by auto
  show ?thesis
    using c1 c2 c3 c4 c5 by simp
qed

theorem no_search_while_awaiting_witness:
  "awaiting_confirmation (state (run example_world race_trace (initial 0)))
   \<and> restart_event (state (run example_world race_trace (initial 0)))
   \<and> pc (miner (run example_world race_trace (initial 0))) = AcquireLock
   \<and> pc (miner (miner_step example_world (example_env (Inl RuntimeError))
                     (run example_world race_trace (initial 0)))) = WaitRestart"
proof -
  have r: "reachable example_world (run example_world race_trace (initial 0))"
    by (rule reachable_run) (rule reachable_initial)
  have a: "awaiting_confirmation (state (run example_world race_trace (initial 0)))"
    by code_simp
  have e: "restart_event (state (run example_world race_trace (initial 0)))"
    by code_simp
  have p: "pc (miner (run example_world race_trace (initial 0))) = AcquireLock"
    by code_simp
  show ?thesis
    using no_search_while_awaiting [OF r a, of "example_env (Inl RuntimeError)"] a e p
    by simp
qed


lemma miner_step_sets_awaiting:
  assumes "\<not> awaiting_confirmation (state s)"
      and "awaiting_confirmation (state (miner_step w e s))"
  shows "pc (miner s) = SetAwaiting \<and> pc (miner (miner_step w e s)) = ClearAfterSubmit"
proof -
  have p: "pc (miner s) = SetAwaiting"
    using assms by (simp add: miner_step_awaiting)
  then have "pc (miner (miner_step w e s)) = ClearAfterSubmit"
    using miner_step_pc_cases [of w e s] by simp
  with p show ?thesis by simp
qed

text \<open>
  Claim C3: over every sequence of steps of the two threads,
  \<open>awaiting_confirmation\<close> goes from false to true only by the step of the mining
  loop that follows a submission (the last call of \<open>submit_solution\<close> was for the
  current nonce and timestamp), and from true to false only by the step of the
  listener that follows the receipt of a contract event whose contract and event
  identifier equal the configured ones; the pass of the hot loop that reports the
  hashrate and sets the restart event leaves \<open>awaiting_confirmation\<close> as it is.
\<close>

theorem awaiting_confirmation_writers:
  assumes "reachable w s"
  shows "(\<not> awaiting_confirmation (state s) \<and> awaiting_confirmation (state (step w ev s))
            \<longrightarrow> (\<exists>e. ev = MinerStep e) \<and> pc (miner s) = SetAwaiting
                \<and> submitted (miner s) \<noteq> []
                \<and> last (submitted (miner s)) = (nonce (miner s), current_ts (miner s)))
       \<and> (awaiting_confirmation (state s) \<and> \<not> awaiting_confirmation (state (step w ev s))
            \<longrightarrow> (\<exists>msg. ev = ListenerStep msg) \<and> listener s = ClearAwaiting
                \<and> (\<exists>data result event event_info.
                       last_message s = Some data
                     \<and> handle_message (CONTRACT_HASH w) data = Matched
                     \<and> py_getitem data ''result'' = Inr (JObj result)
                     \<and> map_of result ''event'' = Some (JObj event)
                     \<and> map_of event ''contract_event'' = Some (JObj event_info)
                     \<and> dict_get event_info ''contract'' = JStr (CONTRACT_HASH w)
                     \<and> py_eq_int (dict_get event_info ''id'') CONTRACT_EVENT_ID))
       \<and> (pc (miner s) = Hashing
            \<longrightarrow> awaiting_confirmation (state (miner_step w e s))
                  = awaiting_confirmation (state s))"
proof -
  have up: "(\<exists>e. ev = MinerStep e) \<and> pc (miner s) = SetAwaiting
                \<and> submitted (miner s) \<noteq> []
                \<and> last (submitted (miner s)) = (nonce (miner s), current_ts (miner s))"
    if f: "\<not> awaiting_confirmation (state s)"
    and t: "awaiting_confirmation (state (step w ev s))"
  proof (cases ev)
    case (MinerStep e')
    with t have "awaiting_confirmation (state (miner_step w e' s))"
      by (simp add: step_def)
    with f have p: "pc (miner s) = SetAwaiting"
      using miner_step_sets_awaiting [of s w e'] by simp
    from set_awaiting_after_submit [OF assms p] p MinerStep show ?thesis by simp
  next
    case (ListenerStep msg)
    with t have "awaiting_confirmation (state (listener_step w msg s))"
      by (simp add: step_def)
    then have "awaiting_confirmation (state s)" by (rule listener_step_awaiting)
    with f show ?thesis by simp
  qed
  have down: "(\<exists>msg. ev = ListenerStep msg) \<and> listener s = ClearAwaiting
                \<and> (\<exists>data result event event_info.
                       last_message s = Some data
                     \<and> handle_message (CONTRACT_HASH w) data = Matched
                     \<and> py_getitem data ''result'' = Inr (JObj result)
                     \<and> map_of result ''event'' = Some (JObj event)
                     \<and> map_of event ''contract_event'' = Some (JObj event_info)
                     \<and> dict_get event_info ''contract'' = JStr (CONTRACT_HASH w)
                     \<and> py_eq_int (dict_get event_info ''id'') CONTRACT_EVENT_ID)"
    if t: "awaiting_confirmation (state s)"
    and f: "\<not> awaiting_confirmation (state (step w ev s))"
  proof (cases ev)
    case (MinerStep e')
    with f have "\<not> awaiting_confirmation (state (miner_step w e' s))"
      by (simp add: step_def)
    with t show ?thesis by (simp add: miner_step_awaiting)
  next
    case (ListenerStep msg)
    with f have "\<not> awaiting_confirmation (state (listener_step w msg s))"
      by (simp add: step_def)
    with t have l: "listener s = ClearAwaiting"
      using listener_step_clears [of s w msg] by simp
    then have "listener s \<noteq> Receiving" by simp
    from listener_matched [OF assms this] obtain data where
      d: "last_message s = Some data" and m: "handle_message (CONTRACT_HASH w) data = Matched"
      by blast
    from handle_message_Matched [OF m] d m l ListenerStep show ?thesis by blast
  qed
  have rep: "awaiting_confirmation (state (miner_step w e s)) = awaiting_confirmation (state s)"
    if "pc (miner s) = Hashing"
    using that by (simp add: miner_step_awaiting)
  show ?thesis
    using up down rep by blast
qed


theorem awaiting_confirmation_writers_witness:
  "\<not> awaiting_confirmation (state (run example_world submit_trace (initial 0)))
   \<and> awaiting_confirmation
        (state (step example_world (MinerStep (example_env (Inl RuntimeError)))
                  (run example_world submit_trace (initial 0))))
   \<and> pc (miner (run example_world submit_trace (initial 0))) = SetAwaiting
   \<and> last (submitted (miner (run example_world submit_trace (initial 0)))) = (2, 5)
   \<and> awaiting_confirmation (state (run example_world confirm_trace (initial 0)))
   \<and> \<not> awaiting_confirmation
        (state (step example_world (ListenerStep (Inr example_event))
                  (run example_world confirm_trace (initial 0))))
   \<and> listener (run example_world confirm_trace (initial 0)) = ClearAwaiting
   \<and> last_message (run example_world confirm_trace (initial 0)) = Some example_event"
proof -
  have r1: "reachable example_world (run example_world submit_trace (initial 0))"
    by (rule reachable_run) (rule reachable_initial)
  have r2: "reachable example_world (run example_world confirm_trace (initial 0))"
    by (rule reachable_run) (rule reachable_initial)
  have a1: "\<not> awaiting_confirmation (state (run example_world submit_trace (initial 0)))"
    by code_simp
  have b1: "awaiting_confirmation
        (state (step example_world (MinerStep (example_env (Inl RuntimeError)))
                  (run example_world submit_trace (initial 0))))"
    by code_simp
  have n1: "nonce (miner (run example_world submit_trace (initial 0))) = 2"
    by code_simp
  have t1: "current_ts (miner (run example_world submit_trace (initial 0))) = 5"
    by code_simp
  have a2: "awaiting_confirmation (state (run example_world confirm_trace (initial 0)))"
    by code_simp
  have b2: "\<not> awaiting_confirmation
        (state (step example_world (ListenerStep (Inr example_event))
                  (run example_world confirm_trace (initial 0))))"
    by code_simp
  have m2: "last_message (run example_world confirm_trace (initial 0)) = Some example_event"
    by code_simp
  show ?thesis
    using awaiting_confirmation_writers
            [OF r1, of "MinerStep (example_env (Inl RuntimeError))"]
          awaiting_confirmation_writers
            [OF r2, of "ListenerStep (Inr example_event)"]
          a1 b1 n1 t1 a2 b2 m2
    by simp
qed


lemma miner_step_Submitting:
  assumes "pc (miner s) = Submitting"
  shows "miner_step w e s =
           s\<lparr>miner := (miner s)
                 \<lparr>pc := (case handle_submission (submit_result e) of
                           SysExit c \<Rightarrow> Exited | Continue \<Rightarrow> SetAwaiting),
                  submitted := submitted (miner s) @ [(nonce (miner s), current_ts (miner s))]\<rparr>\<rparr>"
  using assms by (simp add: miner_step_def Let_def)

lemma miner_step_SetAwaiting:
  assumes "pc (miner s) = SetAwaiting"
  shows "miner_step w e s
           = goto ClearAfterSubmit (s\<lparr>state := (state s)\<lparr>awaiting_confirmation := True\<rparr>\<rparr>)"
  using assms by (simp add: miner_step_def Let_def)

lemma miner_step_ClearAfterSubmit:
  assumes "pc (miner s) = ClearAfterSubmit"
  shows "miner_step w e s
           = goto WaitAfterSubmit (s\<lparr>state := (state s)\<lparr>restart_event := False\<rparr>\<rparr>)"
  using assms by (simp add: miner_step_def Let_def)

lemma miner_step_WaitAfterSubmit:
  assumes "pc (miner s) = WaitAfterSubmit"
  shows "miner_step w e s = (if restart_event (state s) then goto WaitRestart s else s)"
  using assms by (simp add: miner_step_def Let_def)

lemma miner_step_Exited:
  assumes "pc (miner s) = Exited"
  shows "miner_step w e s = s"
  using assms by (simp add: miner_step_def Let_def)



lemma await_after_SetAwaiting:
  assumes "pc (miner s1) = SetAwaiting"
  shows "awaiting_confirmation (state (miner_step w e3 (miner_step w e2 s1)))
       \<and> \<not> restart_event (state (miner_step w e3 (miner_step w e2 s1)))
       \<and> pc (miner (miner_step w e3 (miner_step w e2 s1))) = WaitAfterSubmit
       \<and> submitted (miner (miner_step w e3 (miner_step w e2 s1))) = submitted (miner s1)
       \<and> miner_step w e4 (miner_step w e3 (miner_step w e2 s1))
           = miner_step w e3 (miner_step w e2 s1)"
proof -
  let ?s2 = "miner_step w e2 s1"
  let ?s3 = "miner_step w e3 ?s2"
  have s2: "?s2 = goto ClearAfterSubmit (s1\<lparr>state := (state s1)\<lparr>awaiting_confirmation := True\<rparr>\<rparr>)"
    using assms by (rule miner_step_SetAwaiting)
  have p2: "pc (miner ?s2) = ClearAfterSubmit"
    by (simp add: s2 goto_def)
  have s3: "?s3 = goto WaitAfterSubmit (?s2\<lparr>state := (state ?s2)\<lparr>restart_event := False\<rparr>\<rparr>)"
    using p2 by (rule miner_step_ClearAfterSubmit)
  have p3: "pc (miner ?s3) = WaitAfterSubmit"
    by (simp add: s3 goto_def)
  have a3: "awaiting_confirmation (state ?s3)"
    by (simp add: s3 goto_def) (simp add: s2 goto_def)
  have r3: "\<not> restart_event (state ?s3)"
    by (simp add: s3 goto_def)
  have u3: "submitted (miner ?s3) = submitted (miner s1)"
    by (simp add: s3 goto_def) (simp add: s2 goto_def)
  have b3: "miner_step w e4 ?s3 = ?s3"
    using miner_step_WaitAfterSubmit [OF p3, of w e4] r3 by simp
  show ?thesis
    using a3 r3 p3 u3 b3 by simp
qed

lemma handle_submission_cases:
  "handle_submission r = SysExit 0 \<or> handle_submission r = Continue"
  by (simp add: handle_submission_code)









text \<open>
  The decision after a submission: the mining loop calls \<open>sys.exit(0)\<close> if and only
  if \<open>submit_solution\<close> returned a result whose return code (the \<open>int\<close> found under
  \<open>tx.result\<close>, \<open>result\<close> or \<open>return_value\<close>, where \<open>True\<close> is the \<open>int\<close> 1) is 1;
  after any other return code, a result with no return code, or an exception, it goes
  on to set \<open>awaiting_confirmation\<close> and to wait. Once it has exited it takes no
  further step, and it exits from nowhere else.
\<close>

theorem exit_iff_supply_exhausted:
  assumes "pc (miner s) = Submitting"
  shows "(pc (miner (miner_step w e s)) = Exited
            \<longleftrightarrow> (\<exists>res. submit_result e = Inr res \<and> return_code_of res = Some 1))
       \<and> (pc (miner (miner_step w e s)) \<noteq> Exited
            \<longrightarrow> pc (miner (miner_step w e s)) = SetAwaiting
              \<and> awaiting_confirmation
                  (state (miner_step w e3 (miner_step w e2 (miner_step w e s))))
              \<and> pc (miner (miner_step w e3 (miner_step w e2 (miner_step w e s))))
                  = WaitAfterSubmit)
       \<and> (pc (miner s') = Exited \<longrightarrow> miner_step w e' s' = s')
       \<and> (pc (miner (miner_step w e' s')) = Exited
            \<longrightarrow> pc (miner s') = Submitting \<or> pc (miner s') = Exited)"
proof -
  note st = miner_step_Submitting [OF assms, of w e]
  have c1: "pc (miner (miner_step w e s)) = Exited
            \<longleftrightarrow> (\<exists>res. submit_result e = Inr res \<and> return_code_of res = Some 1)"
    by (simp add: st handle_submission_code)
  have c2: "pc (miner (miner_step w e s)) = SetAwaiting
              \<and> awaiting_confirmation
                  (state (miner_step w e3 (miner_step w e2 (miner_step w e s))))
              \<and> pc (miner (miner_step w e3 (miner_step w e2 (miner_step w e s))))
                  = WaitAfterSubmit"
    if n: "pc (miner (miner_step w e s)) \<noteq> Exited"
  proof -
    have p: "pc (miner (miner_step w e s)) = SetAwaiting"
      using n handle_submission_cases [of "submit_result e"] by (auto simp: st)
    from await_after_SetAwaiting [OF p] p show ?thesis by simp
  qed
  have c3: "pc (miner s') = Exited \<longrightarrow> miner_step w e' s' = s'"
    by (simp add: miner_step_Exited)
  have c4: "pc (miner (miner_step w e' s')) = Exited
            \<longrightarrow> pc (miner s') = Submitting \<or> pc (miner s') = Exited"
    using miner_step_pc_cases [of w e' s']
    by (cases "pc (miner s')") (auto split: if_splits)
  show ?thesis
    using c1 c2 c3 c4 by blast
qed

theorem exit_iff_supply_exhausted_witness:
  "pc (miner (run example_world found_trace (initial 0))) = Submitting
   \<and> return_code_of supply_exhausted = Some 1
   \<and> pc (miner (miner_step example_world (example_env (Inr supply_exhausted))
                     (run example_world found_trace (initial 0)))) = Exited
   \<and> return_code_of pow_rejected = Some 4
   \<and> pc (miner (miner_step example_world (example_env (Inr pow_rejected))
                     (run example_world found_trace (initial 0)))) = SetAwaiting"
proof -
  have p: "pc (miner (run example_world found_trace (initial 0))) = Submitting"
    by code_simp
  have r1: "return_code_of supply_exhausted = Some 1" by code_simp
  have r4: "return_code_of pow_rejected = Some 4" by code_simp
  have e1: "submit_result (example_env (Inr supply_exhausted)) = Inr supply_exhausted"
    by (simp add: example_env_def)
  have e4: "submit_result (example_env (Inr pow_rejected)) = Inr pow_rejected"
    by (simp add: example_env_def)
  show ?thesis
    using exit_iff_supply_exhausted [OF p, of example_world "example_env (Inr supply_exhausted)"]
          exit_iff_supply_exhausted [OF p, of example_world "example_env (Inr pow_rejected)"]
          p r1 r4 e1 e4
    by simp
qed



section \<open>Properties of the nonce\<close>

lemma randint_range:
  assumes "a \<le> b"
  shows "a \<le> randint a b draw \<and> randint a b draw \<le> b"
proof -
  have p: "0 < b - a + 1" using assms by simp
  have l: "0 \<le> draw mod (b - a + 1)" using p by (rule pos_mod_sign)
  have u: "draw mod (b - a + 1) < b - a + 1" using p by (rule pos_mod_bound)
  show ?thesis unfolding randint_def using l u by linarith
qed

lemma miner_step_into_hot_loop:
  assumes "pc (miner (miner_step w e s)) = LoopTest \<or> pc (miner (miner_step w e s)) = Hashing"
  shows "(pc (miner s) = BuildHeader
            \<and> nonce (miner (miner_step w e s)) = randint 0 (2 ^ 32) (entropy e)
            \<and> local_hashes (miner (miner_step w e s)) = 0)
       \<or> (pc (miner s) = Hashing
            \<and> nonce (miner (miner_step w e s)) = nonce (miner s) + 1
            \<and> local_hashes (miner (miner_step w e s)) = local_hashes (miner s) + 1)
       \<or> (pc (miner s) = LoopTest
            \<and> nonce (miner (miner_step w e s)) = nonce (miner s)
            \<and> local_hashes (miner (miner_step w e s)) = local_hashes (miner s))"
  using assms
  by (cases "pc (miner s)")
     (auto simp: miner_step_def goto_def Let_def
        split: sum.splits prod.splits bool.splits if_splits submit_outcome.splits)

lemma nonce_window:
  assumes "reachable w s" and "pc (miner s) = LoopTest \<or> pc (miner s) = Hashing"
  shows "0 \<le> local_hashes (miner s)
       \<and> 0 \<le> nonce (miner s) - local_hashes (miner s)
       \<and> nonce (miner s) - local_hashes (miner s) \<le> 2 ^ 32"
  using assms
proof (induction rule: reachable.induct)
  case (reachable_initial t0)
  then show ?case by (simp add: initial_def)
next
  case (reachable_step s ev)
  show ?case
  proof (cases ev)
    case (ListenerStep msg)
    with reachable_step show ?thesis by (simp add: step_def listener_step_miner)
  next
    case (MinerStep e)
    with reachable_step.prems
    have h: "pc (miner (miner_step w e s)) = LoopTest \<or> pc (miner (miner_step w e s)) = Hashing"
      by (simp add: step_def)
    have r: "0 \<le> randint 0 (2 ^ 32) (entropy e) \<and> randint 0 (2 ^ 32) (entropy e) \<le> 2 ^ 32"
      by (rule randint_range) simp
    from miner_step_into_hot_loop [OF h] reachable_step.IH r MinerStep show ?thesis
      by (auto simp: step_def)
  qed
qed

lemma miner_step_nonce:
  assumes "pc (miner s) \<noteq> BuildHeader" and "pc (miner s) \<noteq> Hashing"
  shows "nonce (miner (miner_step w e s)) = nonce (miner s)"
  using assms
  by (cases "pc (miner s)")
     (simp_all add: miner_step_def goto_def Let_def
        split: sum.splits prod.splits bool.splits)

lemma miner_step_BuildHeader:
  assumes "pc (miner s) = BuildHeader" and "pc (miner (miner_step w e s)) = LoopTest"
  shows "nonce (miner (miner_step w e s)) = randint 0 (2 ^ 32) (entropy e)
       \<and> local_hashes (miner (miner_step w e s)) = 0"
  using miner_step_into_hot_loop [of w e s] assms by simp

text \<open>
  Claim C10: the step that starts a search cycle draws an initial nonce in the
  inclusive range \<open>[0, 2 ^ 32]\<close> (both ends can be drawn) and resets the count of hash
  attempts; in every reachable state of the hot loop the nonce minus the number of
  attempts made in the cycle lies in that range, so a larger nonce has been reached
  by the increments of that cycle; no step other than the start of a cycle and a hash
  attempt changes the nonce.
\<close>

theorem initial_nonce_range:
  "(pc (miner s) = BuildHeader \<and> pc (miner (miner_step w e s)) = LoopTest
      \<longrightarrow> 0 \<le> nonce (miner (miner_step w e s))
        \<and> nonce (miner (miner_step w e s)) \<le> 2 ^ 32
        \<and> local_hashes (miner (miner_step w e s)) = 0)
   \<and> (reachable w s \<and> (pc (miner s) = LoopTest \<or> pc (miner s) = Hashing)
      \<longrightarrow> 0 \<le> local_hashes (miner s)
        \<and> 0 \<le> nonce (miner s) - local_hashes (miner s)
        \<and> nonce (miner s) - local_hashes (miner s) \<le> 2 ^ 32)
   \<and> (nonce (miner (step w ev s)) \<noteq> nonce (miner s)
      \<longrightarrow> pc (miner s) = BuildHeader \<or> pc (miner s) = Hashing)
   \<and> randint 0 (2 ^ 32) 0 = 0
   \<and> randint 0 (2 ^ 32) (2 ^ 32) = 2 ^ 32"
proof -
  have r: "0 \<le> randint 0 (2 ^ 32) (entropy e) \<and> randint 0 (2 ^ 32) (entropy e) \<le> 2 ^ 32"
    by (rule randint_range) simp
  have c1: "pc (miner s) = BuildHeader \<and> pc (miner (miner_step w e s)) = LoopTest
      \<longrightarrow> 0 \<le> nonce (miner (miner_step w e s))
        \<and> nonce (miner (miner_step w e s)) \<le> 2 ^ 32
        \<and> local_hashes (miner (miner_step w e s)) = 0"
    using miner_step_BuildHeader [of s w e] r by simp
  have c2: "reachable w s \<and> (pc (miner s) = LoopTest \<or> pc (miner s) = Hashing)
      \<longrightarrow> 0 \<le> local_hashes (miner s)
        \<and> 0 \<le> nonce (miner s) - local_hashes (miner s)
        \<and> nonce (miner s) - local_hashes (miner s) \<le> 2 ^ 32"
    using nonce_window [of w s] by blast
  have c3: "nonce (miner (step w ev s)) \<noteq> nonce (miner s)
      \<longrightarrow> pc (miner s) = BuildHeader \<or> pc (miner s) = Hashing"
    using miner_step_nonce [of s w]
    by (cases ev) (auto simp: step_def listener_step_miner)
  have c4: "randint 0 (2 ^ 32) 0 = 0" by (simp add: randint_def)
  have c5: "randint 0 (2 ^ 32) (2 ^ 32) = 2 ^ 32" by (simp add: randint_def)
  show ?thesis
    using c1 c2 c3 c4 c5 by blast
qed


theorem initial_nonce_range_witness:
  "pc (miner (run example_world synced_trace (initial 0))) = BuildHeader
   \<and> pc (miner (miner_step example_world (example_env (Inl RuntimeError))
                     (run example_world synced_trace (initial 0)))) = LoopTest
   \<and> nonce (miner (miner_step example_world (example_env (Inl RuntimeError))
                        (run example_world synced_trace (initial 0)))) = 2
   \<and> pc (miner (run example_world found_trace (initial 0))) = Submitting
   \<and> nonce (miner (run example_world (synced_trace @ [MinerStep (example_env (Inl RuntimeError))])
                        (initial 0)))
       - local_hashes (miner (run example_world
                        (synced_trace @ [MinerStep (example_env (Inl RuntimeError))])
                        (initial 0))) \<le> 2 ^ 32"
proof -
  have p: "pc (miner (run example_world synced_trace (initial 0))) = BuildHeader"
    by code_simp
  have q: "pc (miner (miner_step example_world (example_env (Inl RuntimeError))
                     (run example_world synced_trace (initial 0)))) = LoopTest"
    by code_simp
  have n: "nonce (miner (miner_step example_world (example_env (Inl RuntimeError))
                        (run example_world synced_trace (initial 0)))) = 2"
    by code_simp
  have f: "pc (miner (run example_world found_trace (initial 0))) = Submitting"
    by code_simp
  have r: "reachable example_world
             (run example_world (synced_trace @ [MinerStep (example_env (Inl RuntimeError))])
                (initial 0))"
    by (rule reachable_run) (rule reachable_initial)
  have l: "pc (miner (run example_world
                        (synced_trace @ [MinerStep (example_env (Inl RuntimeError))])
                        (initial 0))) = LoopTest"
    by code_simp
  show ?thesis
    using initial_nonce_range
            [of "run example_world synced_trace (initial 0)" example_world
                "example_env (Inl RuntimeError)"]
          initial_nonce_range
            [of "run example_world (synced_trace @ [MinerStep (example_env (Inl RuntimeError))])
                   (initial 0)" example_world]
          p q n f r l
    by simp
qed






section \<open>The exit of the mining loop and the process\<close>

text \<open>
  Claim C5 has the process terminate when the submission returns the return code 1.
  In that scenario the mining loop calls \<open>sys.exit(0)\<close> after its one submission and
  takes no further step; but \<open>mine_loop\<close> runs in a thread of its own, where
  SystemExit ends that thread only: the listener, in the main thread, goes on, and
  here it receives an event and sets the restart event after the exit.
\<close>

theorem supply_exhausted_listener_continues:
  "pc (miner (run example_world exhausted_trace (initial 0))) = Exited
   \<and> submitted (miner (run example_world exhausted_trace (initial 0))) = [(2, 5)]
   \<and> \<not> restart_event (state (run example_world exhausted_trace (initial 0)))
   \<and> last_message (run example_world exhausted_trace (initial 0)) = None
   \<and> pc (miner (run example_world after_exit_trace (initial 0))) = Exited
   \<and> submitted (miner (run example_world after_exit_trace (initial 0))) = [(2, 5)]
   \<and> restart_event (state (run example_world after_exit_trace (initial 0)))
   \<and> last_message (run example_world after_exit_trace (initial 0)) = Some example_event
   \<and> listener (run example_world after_exit_trace (initial 0)) = Receiving"
proof -
  have a1: "pc (miner (run example_world exhausted_trace (initial 0))) = Exited"
    by code_simp
  have a2: "submitted (miner (run example_world exhausted_trace (initial 0))) = [(2, 5)]"
    by code_simp
  have a3: "\<not> restart_event (state (run example_world exhausted_trace (initial 0)))"
    by code_simp
  have a4: "last_message (run example_world exhausted_trace (initial 0)) = None"
    by code_simp
  have b1: "pc (miner (run example_world after_exit_trace (initial 0))) = Exited"
    by code_simp
  have b2: "submitted (miner (run example_world after_exit_trace (initial 0))) = [(2, 5)]"
    by code_simp
  have b3: "restart_event (state (run example_world after_exit_trace (initial 0)))"
    by code_simp
  have b4: "last_message (run example_world after_exit_trace (initial 0)) = Some example_event"
    by code_simp
  have b5: "listener (run example_world after_exit_trace (initial 0)) = Receiving"
    by code_simp
  show ?thesis
    using a1 a2 a3 a4 b1 b2 b3 b4 b5 by simp
qed

end
